theory Spec2Isabelle
  imports Complex_Main "HOL-Library.Sublist" "HOL-Library.Word"
begin

section \<open>The treemap viewer of lighthouse-viewer/app/treemap/treemap.js\<close>

text \<open>
  A shallow embedding of \<^verbatim>\<open>treemap.js\<close>: the tree traversal \<^verbatim>\<open>dfs\<close>, the label
  formatting \<^verbatim>\<open>setTitle\<close>, the class \<^verbatim>\<open>TreemapViewer\<close> (constructor, show, render,
  updateColors) and the message handler installed by \<^verbatim>\<open>main\<close>.

  Conventions of the embedding.
  \<^item> A JavaScript string is the list of its UTF-16 code units.
  \<^item> A JavaScript number is an IEEE 754 double: NaN, +Infinity, -Infinity or a
    finite double, which is a rational number. The operations \<^verbatim>\<open>+\<close>, \<^verbatim>\<open>-\<close>, \<^verbatim>\<open>*\<close>
    and \<^verbatim>\<open>/\<close> round their exact result to the nearest double, a tie going to the even
    significand, and overflow to an infinity. The sign of a zero is not kept. The
    byte counts \<^verbatim>\<open>size\<close> and \<^verbatim>\<open>wastedBytes\<close> that arrive in a message are finite
    doubles.
  \<^item> An exception is a value of type \<open>error\<close>.
  \<^item> The layout library (webtreemap) and the DOM are not part of the file; what the
    code needs of them is a parameter of the function that uses it.
\<close>

subsection \<open>Strings\<close>

type_synonym jsstring = "16 word list"

text \<open>A string literal of the source whose characters are all ASCII.\<close>

definition ascii :: "string \<Rightarrow> jsstring" where
  "ascii s = map (\<lambda>c. of_nat (of_char c)) s"

text \<open>The separator \<^verbatim>\<open>" \<bullet> "\<close> of the labels: a space, U+2022 (BULLET), a space.\<close>

definition bullet :: jsstring where
  "bullet = [0x20, 0x2022, 0x20]"

text \<open>
  The string iterator, which the spread \<^verbatim>\<open>[...rootNode.id]\<close> runs: it yields the
  string's code points, each as a string of one code unit, or of two when a high
  surrogate is followed by a low surrogate. Such a string is never empty: it is kept
  as its first code unit and the rest.
\<close>

type_synonym jschar = "16 word \<times> jsstring"

definition is_high_surrogate :: "16 word \<Rightarrow> bool" where
  "is_high_surrogate u = (0xD800 \<le> u \<and> u \<le> 0xDBFF)"

definition is_low_surrogate :: "16 word \<Rightarrow> bool" where
  "is_low_surrogate u = (0xDC00 \<le> u \<and> u \<le> 0xDFFF)"

fun spread :: "jsstring \<Rightarrow> jschar list" where
  "spread [] = []"
| "spread [u] = [(u, [])]"
| "spread (u # v # rest) =
     (if is_high_surrogate u \<and> is_low_surrogate v then (u, [v]) # spread rest
      else (u, []) # spread (v # rest))"

text \<open>\<^verbatim>\<open>char.charCodeAt(0)\<close>: the first code unit, as a number.\<close>

definition charCodeAt0 :: "jschar \<Rightarrow> nat" where
  "charCodeAt0 ch = unat (fst ch)"

text \<open>A value inside a template literal: an absent one prints as \<^verbatim>\<open>undefined\<close>.\<close>

definition interpolate :: "jsstring option \<Rightarrow> jsstring" where
  "interpolate v = (case v of None \<Rightarrow> ascii ''undefined'' | Some t \<Rightarrow> t)"

subsection \<open>Numbers\<close>

datatype 'a ext = Fin 'a | PInf | NInf | NaN

type_synonym jsnum = "rat ext"

text \<open>
  The finite doubles are the rationals \<open>m * 2 ^ e\<close> with an integer \<open>m\<close>,
  \<open>\<bar>m\<bar> < 2 ^ 53\<close> and \<open>- 1074 \<le> e \<le> 971\<close>. The result of an arithmetic operation
  is the double nearest to the exact result (\<open>to_double\<close>), as IEEE 754 has it in the
  rounding mode of JavaScript.

  For a positive rational \<open>q\<close>, \<open>exponent q\<close> is the integer \<open>e\<close> with
  \<open>2 ^ e \<le> q < 2 ^ (e + 1)\<close>: it is found by halving a number from 2 on and by
  doubling a number below 1. The doubles around \<open>q\<close> are the multiples of \<open>ulp q\<close>,
  which is \<open>2 ^ (e - 52)\<close> and \<open>2 ^ (- 1074)\<close> for the numbers below \<open>2 ^ (- 1022)\<close>
  (the subnormal numbers). \<open>nearest q\<close> is the multiple nearest to \<open>q\<close>; of two that
  are equally near it is the even one. From \<open>2 ^ 1024\<close> on the result is an infinity.
\<close>

function binade_up :: "rat \<Rightarrow> nat" where
  "binade_up q = (if q < 2 then 0 else Suc (binade_up (q / 2)))"
  by pat_completeness auto
termination
proof (relation "measure (\<lambda>q. nat \<lfloor>q\<rfloor>)")
  show "wf (measure (\<lambda>q :: rat. nat \<lfloor>q\<rfloor>))" by simp
next
  fix q :: rat
  assume "\<not> q < 2"
  then have "q / 2 \<le> q - 1" by simp
  then have "\<lfloor>q / 2\<rfloor> \<le> \<lfloor>q - 1\<rfloor>" by (rule floor_mono)
  moreover have "2 \<le> \<lfloor>q\<rfloor>" using \<open>\<not> q < 2\<close> by (simp add: le_floor_iff)
  ultimately show "(q / 2, q) \<in> measure (\<lambda>q. nat \<lfloor>q\<rfloor>)" by simp
qed

function binade_down :: "rat \<Rightarrow> nat" where
  "binade_down q = (if q \<le> 0 \<or> 1 \<le> q then 0 else Suc (binade_down (2 * q)))"
  by pat_completeness auto
termination
proof (relation "measure (\<lambda>q. nat \<lceil>1 / q\<rceil>)")
  show "wf (measure (\<lambda>q :: rat. nat \<lceil>1 / q\<rceil>))" by simp
next
  fix q :: rat
  assume "\<not> (q \<le> 0 \<or> 1 \<le> q)"
  then have q: "0 < q" "q < 1" by simp_all
  then have "1 < 1 / q" by simp
  then have c: "2 \<le> \<lceil>1 / q\<rceil>" by linarith
  have "1 / q \<le> of_int \<lceil>1 / q\<rceil>" by linarith
  then have "1 / (2 * q) \<le> of_int \<lceil>1 / q\<rceil> / 2" by simp
  also have "\<dots> \<le> of_int (\<lceil>1 / q\<rceil> - 1)" using c by simp
  finally have "\<lceil>1 / (2 * q)\<rceil> \<le> \<lceil>1 / q\<rceil> - 1" by (rule ceiling_le)
  with c q show "(2 * q, q) \<in> measure (\<lambda>q. nat \<lceil>1 / q\<rceil>)" by simp
qed

declare binade_up.simps [simp del] binade_down.simps [simp del]

definition exponent :: "rat \<Rightarrow> int" where
  "exponent q = (if 1 \<le> q then int (binade_up q) else - int (binade_down q))"

definition ulp :: "rat \<Rightarrow> rat" where
  "ulp q = 2 powi (max (exponent q) (- 1022) - 52)"

text \<open>The integer nearest to a rational; of two that are equally near, the even one.\<close>

definition round_even :: "rat \<Rightarrow> int" where
  "round_even m =
     (let f = \<lfloor>m\<rfloor>; d = m - of_int f in
      if d < 1 / 2 then f else if 1 / 2 < d then f + 1 else if even f then f else f + 1)"

definition nearest :: "rat \<Rightarrow> rat" where
  "nearest q = of_int (round_even (q / ulp q)) * ulp q"

definition to_double_pos :: "rat \<Rightarrow> jsnum" where
  "to_double_pos q = (if 2 ^ 1024 \<le> nearest q then PInf else Fin (nearest q))"

fun negate :: "jsnum \<Rightarrow> jsnum" where
  "negate (Fin r) = Fin (- r)"
| "negate PInf = NInf"
| "negate NInf = PInf"
| "negate NaN = NaN"

definition to_double :: "rat \<Rightarrow> jsnum" where
  "to_double q =
     (if q = 0 then Fin 0 else if 0 < q then to_double_pos q else negate (to_double_pos (- q)))"

fun jsadd :: "jsnum \<Rightarrow> jsnum \<Rightarrow> jsnum" where
  "jsadd NaN y = NaN"
| "jsadd x NaN = NaN"
| "jsadd PInf NInf = NaN"
| "jsadd NInf PInf = NaN"
| "jsadd PInf y = PInf"
| "jsadd x PInf = PInf"
| "jsadd NInf y = NInf"
| "jsadd x NInf = NInf"
| "jsadd (Fin a) (Fin b) = to_double (a + b)"

fun jssub :: "jsnum \<Rightarrow> jsnum \<Rightarrow> jsnum" where
  "jssub NaN y = NaN"
| "jssub x NaN = NaN"
| "jssub PInf PInf = NaN"
| "jssub NInf NInf = NaN"
| "jssub PInf y = PInf"
| "jssub x PInf = NInf"
| "jssub NInf y = NInf"
| "jssub x NInf = PInf"
| "jssub (Fin a) (Fin b) = to_double (a - b)"

text \<open>The sign flip of a product or quotient with a negative finite operand.\<close>

fun flip :: "jsnum \<Rightarrow> jsnum" where
  "flip PInf = NInf"
| "flip NInf = PInf"
| "flip x = x"

fun jsmul :: "jsnum \<Rightarrow> jsnum \<Rightarrow> jsnum" where
  "jsmul NaN y = NaN"
| "jsmul x NaN = NaN"
| "jsmul (Fin a) (Fin b) = to_double (a * b)"
| "jsmul (Fin a) y = (if a = 0 then NaN else if 0 < a then y else flip y)"
| "jsmul x (Fin b) = (if b = 0 then NaN else if 0 < b then x else flip x)"
| "jsmul PInf y = y"
| "jsmul NInf y = flip y"

text \<open>
  Division. A finite divisor 0 is the double +0 (the model has no -0, and a byte
  count that is zero is +0): a positive dividend gives +Infinity, a negative one
  -Infinity and 0 / 0 is NaN.
\<close>

fun jsdiv :: "jsnum \<Rightarrow> jsnum \<Rightarrow> jsnum" where
  "jsdiv NaN y = NaN"
| "jsdiv x NaN = NaN"
| "jsdiv (Fin a) (Fin b) =
     (if b \<noteq> 0 then to_double (a / b)
      else if 0 < a then PInf else if a < 0 then NInf else NaN)"
| "jsdiv (Fin a) y = Fin 0"
| "jsdiv x (Fin b) = (if 0 \<le> b then x else flip x)"
| "jsdiv x y = NaN"

text \<open>
  The remainder \<^verbatim>\<open>x % y\<close>: the sign of the dividend, the quotient truncated. The
  remainder of two doubles is a double; nothing is rounded.
\<close>

definition trunc :: "rat \<Rightarrow> int" where
  "trunc q = (if 0 \<le> q then \<lfloor>q\<rfloor> else \<lceil>q\<rceil>)"

fun jsrem :: "jsnum \<Rightarrow> jsnum \<Rightarrow> jsnum" where
  "jsrem (Fin a) (Fin b) = (if b = 0 then NaN else Fin (a - b * of_int (trunc (a / b))))"
| "jsrem (Fin a) PInf = Fin a"
| "jsrem (Fin a) NInf = Fin a"
| "jsrem x y = NaN"

text \<open>The comparison \<^verbatim>\<open>x > y\<close>: false as soon as one side is NaN.\<close>

fun jsgt :: "jsnum \<Rightarrow> jsnum \<Rightarrow> bool" where
  "jsgt NaN y = False"
| "jsgt x NaN = False"
| "jsgt (Fin a) (Fin b) = (b < a)"
| "jsgt x PInf = False"
| "jsgt NInf y = False"
| "jsgt PInf y = True"
| "jsgt x NInf = True"

text \<open>\<^verbatim>\<open>x || y\<close> on numbers: \<open>x\<close> unless it is falsy (0 or NaN).\<close>

definition truthy :: "jsnum \<Rightarrow> bool" where
  "truthy x = (x \<noteq> Fin 0 \<and> x \<noteq> NaN)"

definition jsor :: "jsnum \<Rightarrow> jsnum \<Rightarrow> jsnum" where
  "jsor x y = (if truthy x then x else y)"

text \<open>
  \<^verbatim>\<open>Math.round\<close>: the integer nearest to its argument, a tie going up. Its result
  is an integer or one of the special values.
\<close>

fun Math_round :: "jsnum \<Rightarrow> int ext" where
  "Math_round (Fin q) = Fin \<lfloor>q + 1 / 2\<rfloor>"
| "Math_round PInf = PInf"
| "Math_round NInf = NInf"
| "Math_round NaN = NaN"

text \<open>
  The string of a number inside a template literal (Number::toString, radix 10), for
  the numbers this file prints: integers and the special values.

  The digits printed for a double \<open>x\<close> are those of the shortest decimal number whose
  nearest double is \<open>x\<close>; of several of the same length it is the one nearest to \<open>x\<close>,
  and of two that are equally near the even one. For an integer \<open>x\<close> this decimal is an
  integer \<open>v\<close> with zeros at its end in place of the digits left out;
  \<open>shortest x j\<close> looks for it among the multiples of \<open>10 ^ j\<close>, taking the largest
  \<open>j\<close> first. Of the multiples of \<open>10 ^ j\<close> whose nearest double is \<open>x\<close>, the one
  nearest to \<open>x\<close> is the one just below or the one just above \<open>x\<close>.

  If \<open>v\<close> is below \<open>10 ^ 21\<close> it is printed by its decimal digits, and otherwise in
  exponent notation, with the digits up to the last one that is not zero.
\<close>

fun digits :: "nat \<Rightarrow> jsstring" where
  "digits n = (if n < 10 then [of_nat (48 + n)] else digits (n div 10) @ [of_nat (48 + n mod 10)])"

declare digits.simps [simp del]

fun shortest :: "nat \<Rightarrow> nat \<Rightarrow> nat" where
  "shortest x j =
     (if j = 0 then x
      else
        (let p = 10 ^ j; lo = x div p * p; hi = lo + p;
             ok_lo = (to_double (of_nat lo) = Fin (of_nat x));
             ok_hi = (to_double (of_nat hi) = Fin (of_nat x))
         in if ok_lo \<and> ok_hi then
              (if x - lo < hi - x then lo
               else if hi - x < x - lo then hi
               else if even (x div p) then lo else hi)
            else if ok_lo then lo
            else if ok_hi then hi
            else shortest x (j - 1)))"

declare shortest.simps [simp del]

definition strip_zeros :: "jsstring \<Rightarrow> jsstring" where
  "strip_zeros ds = rev (dropWhile (\<lambda>d. d = 48) (rev ds))"

definition nat_to_string :: "nat \<Rightarrow> jsstring" where
  "nat_to_string n =
     (let ds = digits (shortest n (length (digits n) - 1)) in
      if length ds \<le> 21 then ds
      else (case strip_zeros ds of
              [] \<Rightarrow> ds
            | d # rest \<Rightarrow>
                (if rest = [] then [d] else d # ascii ''.'' @ rest)
                @ ascii ''e+'' @ digits (length ds - 1)))"

fun ToString :: "int ext \<Rightarrow> jsstring" where
  "ToString (Fin i) = (if i < 0 then ascii ''-'' @ nat_to_string (nat (- i)) else nat_to_string (nat i))"
| "ToString PInf = ascii ''Infinity''"
| "ToString NInf = ascii ''-Infinity''"
| "ToString NaN = ascii ''NaN''"

subsection \<open>Errors\<close>

datatype error =
  TypeError
| RangeError
| Error jsstring

subsection \<open>The data: Node and RootNode\<close>

text \<open>
  Modelled from the spec: the types \<^verbatim>\<open>Node\<close> and \<^verbatim>\<open>RootNode\<close>, which the source imports
  from \<^verbatim>\<open>lighthouse-core/audits/treemap-data.js\<close>. A node has the fields \<^verbatim>\<open>id\<close>,
  \<^verbatim>\<open>size\<close>, \<^verbatim>\<open>wastedBytes\<close> and the optional \<^verbatim>\<open>children\<close>, \<^verbatim>\<open>originalId\<close>,
  \<^verbatim>\<open>idHash\<close> and \<^verbatim>\<open>dom\<close>. An absent field is \<open>None\<close>. The field \<^verbatim>\<open>id\<close> is
  optional here because the aggregate that \<^verbatim>\<open>show\<close> builds has none. The only
  writer of \<^verbatim>\<open>idHash\<close> is the constructor, which stores a sum of code units. Of the
  element \<^verbatim>\<open>dom\<close> the code writes two properties of its style; the model keeps the
  strings that were assigned to them.

  The scalar fields are a record; the tree is a datatype over it. The trees of
  distinct roots share no node with each other. A root refers to its node: to the
  tree itself here, and to the address of an object in the section on the store.
\<close>

record style =
  backgroundColor :: jsstring
  color :: jsstring

record nfields =
  id_n :: "jsstring option"
  size_n :: rat
  wastedBytes :: rat
  originalId :: "jsstring option"
  idHash :: "nat option"
  dom :: "style option"

datatype node = Node (data: nfields) (children: "node list option")

record 'n rootnode =
  id_r :: jsstring
  group_r :: jsstring
  node :: 'n

subsection \<open>dfs\<close>

text \<open>
  \<^verbatim>\<open>dfs(node, fn)\<close> calls \<^verbatim>\<open>fn(node)\<close> and then, if \<^verbatim>\<open>node.children\<close> is truthy (an
  array, also an empty one), itself on each child in order. A callback may write
  fields of the node it is given and may change a state outside the tree (\<open>'s\<close>);
  the callbacks of this file leave \<^verbatim>\<open>children\<close> alone, and so do the callbacks of
  the model, which get the scalar fields only.
\<close>

fun dfs :: "node \<Rightarrow> (nfields \<Rightarrow> 's \<Rightarrow> nfields \<times> 's) \<Rightarrow> 's \<Rightarrow> node \<times> 's"
  and dfs_children :: "node list \<Rightarrow> (nfields \<Rightarrow> 's \<Rightarrow> nfields \<times> 's) \<Rightarrow> 's \<Rightarrow> node list \<times> 's"
  where
    "dfs (Node f cs) fn s =
      (case fn f s of (f', s1) \<Rightarrow>
        (case cs of
           None \<Rightarrow> (Node f' None, s1)
         | Some xs \<Rightarrow> (case dfs_children xs fn s1 of (xs', s2) \<Rightarrow> (Node f' (Some xs'), s2))))"
  | "dfs_children [] fn s = ([], s)"
  | "dfs_children (c # cs) fn s =
      (case dfs c fn s of (c', s1) \<Rightarrow>
        (case dfs_children cs fn s1 of (cs', s2) \<Rightarrow> (c' # cs', s2)))"

text \<open>A traversal whose callback only writes fields of the node it visits.\<close>

definition dfs_write :: "node \<Rightarrow> (nfields \<Rightarrow> nfields) \<Rightarrow> node" where
  "dfs_write n g = fst (dfs n (\<lambda>f s. (g f, s)) ())"

text \<open>
  The nodes of a tree by position. A position is the list of child indices on the
  way from the root; \<open>positions\<close> lists them in pre-order and \<open>preorder\<close> lists the
  subtrees in the same order.
\<close>

fun subtree_at :: "node \<Rightarrow> nat list \<Rightarrow> node option" where
  "subtree_at n [] = Some n"
| "subtree_at n (i # p) =
     (case children n of
        None \<Rightarrow> None
      | Some xs \<Rightarrow> (if i < length xs then subtree_at (xs ! i) p else None))"

fun preorder :: "node \<Rightarrow> node list"
  and preorder_children :: "node list \<Rightarrow> node list"
  where
    "preorder (Node f cs) =
       Node f cs # (case cs of None \<Rightarrow> [] | Some xs \<Rightarrow> preorder_children xs)"
  | "preorder_children [] = []"
  | "preorder_children (c # cs) = preorder c @ preorder_children cs"

fun positions :: "node \<Rightarrow> nat list list"
  and positions_children :: "nat \<Rightarrow> node list \<Rightarrow> nat list list"
  where
    "positions (Node f cs) =
       [] # (case cs of None \<Rightarrow> [] | Some xs \<Rightarrow> positions_children 0 xs)"
  | "positions_children i [] = []"
  | "positions_children i (c # cs) =
       map ((#) i) (positions c) @ positions_children (Suc i) cs"

subsection \<open>setTitle\<close>

definition MODE :: jsstring where
  "MODE = ascii ''wastedBytes''"

text \<open>
  The callback of \<^verbatim>\<open>setTitle\<close>. A node has no field \<^verbatim>\<open>total\<close>, so the \<^verbatim>\<open>total\<close> that
  the branch for the mode \<^verbatim>\<open>default\<close> divides by is \<^verbatim>\<open>undefined\<close>, as a number NaN.
\<close>

definition setTitle_fn :: "nfields \<Rightarrow> nfields" where
  "setTitle_fn n =
     (let size = Fin (size_n n); total = NaN; wasted = Fin (wastedBytes n) in
      if MODE = ascii ''default'' then
        n\<lparr>id_n := Some (interpolate (originalId n) @ bullet @ ToString (Math_round size)
               @ bullet @ ToString (Math_round (jsmul (jsdiv size total) (Fin 100))))\<rparr>
      else if MODE = ascii ''wastedBytes'' then
        n\<lparr>id_n := Some (interpolate (originalId n) @ bullet @ ToString (Math_round size)
               @ bullet @ ToString (Math_round (jsmul (jsdiv wasted size) (Fin 100))))\<rparr>
      else n)"

definition setTitle :: "node \<Rightarrow> node" where
  "setTitle n = dfs_write n setTitle_fn"

subsection \<open>hsl and the class TreemapViewer\<close>

definition hsl :: "int ext \<Rightarrow> int ext \<Rightarrow> int ext \<Rightarrow> jsstring" where
  "hsl h s l =
     ascii ''hsl('' @ ToString h @ ascii '', '' @ ToString s @ ascii ''%, '' @ ToString l @ ascii ''%)''"

text \<open>
  The state of a viewer, over the same kind of reference to a node. The mount element
  \<^verbatim>\<open>el\<close> and the layout object \<^verbatim>\<open>treemap\<close> belong to the DOM and to webtreemap;
  \<^verbatim>\<open>treemap\<close> is set exactly when \<^verbatim>\<open>currentRootNode\<close> is.
\<close>

record 'n viewer =
  documentUrl :: jsstring
  rootNodes :: "'n rootnode list"
  currentRootNode :: "'n option"

text \<open>
  The hash of a root's id, \<^verbatim>\<open>[...id].reduce((acc, char) => acc + char.charCodeAt(0), 0)\<close>:
  a sum of code units, which is exact in a double for every string.

  The body of the constructor's loop. \<open>webtreemap_sort\<close> stands for
  \<^verbatim>\<open>webtreemap.sort\<close>, which reorders the children of a tree in place.
\<close>

definition id_hash :: "jsstring \<Rightarrow> nat" where
  "id_hash i = foldl (\<lambda>acc ch. acc + charCodeAt0 ch) 0 (spread i)"

definition annotate :: "(node \<Rightarrow> node) \<Rightarrow> node rootnode \<Rightarrow> node rootnode" where
  "annotate webtreemap_sort rootNode =
     (let n1 = dfs_write (node rootNode) (\<lambda>n. n\<lparr>originalId := id_n n\<rparr>);
          h = id_hash (id_r rootNode);
          n2 = dfs_write n1 (\<lambda>n. n\<lparr>idHash := Some h\<rparr>)
      in rootNode\<lparr>node := webtreemap_sort n2\<rparr>)"

definition TreemapViewer ::
  "(node \<Rightarrow> node) \<Rightarrow> jsstring \<Rightarrow> node rootnode list \<Rightarrow> node viewer" where
  "TreemapViewer webtreemap_sort url rs =
     \<lparr>documentUrl = url, rootNodes = map (annotate webtreemap_sort) rs, currentRootNode = None\<rparr>"

text \<open>
  \<^verbatim>\<open>JSON.parse(JSON.stringify(n))\<close> on a tree: a copy with the same fields. JSON text
  holds no DOM element; the trees of \<^verbatim>\<open>rootNodes\<close> have none, since the layout
  library only ever gets a copy.
\<close>

fun JSON_clone :: "node \<Rightarrow> node" where
  "JSON_clone (Node f cs) = Node (f\<lparr>dom := None\<rparr>) (map_option (map JSON_clone) cs)"

text \<open>The object literal of \<^verbatim>\<open>show\<close> for the selection of all JavaScript.\<close>

definition aggregate :: "jsstring \<Rightarrow> node list \<Rightarrow> node" where
  "aggregate url cs =
     Node \<lparr>id_n = None,
           size_n = foldl (\<lambda>acc cur. size_n (data cur) + acc) 0 cs,
           wastedBytes = foldl (\<lambda>acc cur. wastedBytes (data cur) + acc) 0 cs,
           originalId = Some url,
           idHash = None,
           dom = None\<rparr>
          (Some cs)"

text \<open>
  The first statement of \<^verbatim>\<open>show\<close>: the node that is shown. When no root has the
  given id, \<^verbatim>\<open>find\<close> returns \<^verbatim>\<open>undefined\<close> and reading its \<^verbatim>\<open>node\<close> is a TypeError.
\<close>

definition show_select :: "node viewer \<Rightarrow> jsstring \<Rightarrow> error + node" where
  "show_select this i =
     (if i = ascii ''javascript'' then
        Inr (aggregate (documentUrl this)
               (map node (filter (\<lambda>rootNode. group_r rootNode = i) (rootNodes this))))
      else
        (case find (\<lambda>rootNode. id_r rootNode = i) (rootNodes this) of
           None \<Rightarrow> Inl TypeError
         | Some rootNode \<Rightarrow> Inr (node rootNode)))"

text \<open>The four hue and saturation pairs \<^verbatim>\<open>{h, s}\<close> of \<^verbatim>\<open>updateColors\<close>.\<close>

definition colors :: "(int \<times> int) list" where
  "colors = [(30, 60), (94, 60), (124, 60), (254, 60)]"

text \<open>
  \<^verbatim>\<open>colors[x]\<close> for a number \<open>x\<close>: an element when \<open>x\<close> is an index of the array,
  \<^verbatim>\<open>undefined\<close> otherwise.
\<close>

definition colors_at :: "jsnum \<Rightarrow> (int \<times> int) option" where
  "colors_at x =
     (case x of
        Fin q \<Rightarrow>
          (if q = of_int \<lfloor>q\<rfloor> \<and> 0 \<le> q \<and> q < of_nat (length colors)
           then Some (colors ! nat \<lfloor>q\<rfloor>) else None)
      | _ \<Rightarrow> None)"

text \<open>\<^verbatim>\<open>node.idHash\<close> as a number: an absent field is \<^verbatim>\<open>undefined\<close>, as a number NaN.\<close>

definition idHash_number :: "nfields \<Rightarrow> jsnum" where
  "idHash_number n = (case idHash n of None \<Rightarrow> NaN | Some h \<Rightarrow> Fin (of_nat h))"

definition lightness :: "nfields \<Rightarrow> jsnum" where
  "lightness n =
     jsadd (Fin 25)
       (jsmul (jssub (Fin 85) (Fin 25))
          (jssub (Fin 1) (jsdiv (Fin (wastedBytes n)) (Fin (size_n n)))))"

text \<open>
  The callback of \<^verbatim>\<open>updateColors\<close>. Reading \<^verbatim>\<open>color.h\<close> when \<^verbatim>\<open>color\<close> is
  \<^verbatim>\<open>undefined\<close> is a TypeError.
\<close>

definition updateColors_fn :: "nfields \<Rightarrow> error + nfields" where
  "updateColors_fn n =
     (case dom n of
        None \<Rightarrow> Inr n
      | Some st \<Rightarrow>
          (case colors_at (jsor (jsrem (idHash_number n) (Fin (of_nat (length colors)))) (Fin 0)) of
             None \<Rightarrow> Inl TypeError
           | Some c \<Rightarrow>
               (let l = lightness n in
                Inr (n\<lparr>dom := Some (st\<lparr>backgroundColor := hsl (Fin (fst c)) (Fin (snd c)) (Math_round l),
                                        color := (if jsgt l (Fin 50) then ascii ''black''
                                                  else ascii ''white'')\<rparr>)\<rparr>))))"

text \<open>
  \<^verbatim>\<open>updateColors\<close>: the traversal stops at the first exception, which is kept in
  the traversal's state; a node visited after it is left as it is. With
  \<^verbatim>\<open>currentRootNode\<close> still \<^verbatim>\<open>null\<close>, the callback reads \<^verbatim>\<open>null.dom\<close>.
\<close>

definition updateColors_step :: "nfields \<Rightarrow> error option \<Rightarrow> nfields \<times> error option" where
  "updateColors_step n s =
     (case s of
        Some e \<Rightarrow> (n, Some e)
      | None \<Rightarrow> (case updateColors_fn n of Inl e \<Rightarrow> (n, Some e) | Inr n' \<Rightarrow> (n', None)))"

definition TreemapViewer_updateColors :: "node viewer \<Rightarrow> error + node viewer" where
  "TreemapViewer_updateColors this =
     (case currentRootNode this of
        None \<Rightarrow> Inl TypeError
      | Some cur \<Rightarrow>
          (case dfs cur updateColors_step None of
             (cur', None) \<Rightarrow> Inr (this\<lparr>currentRootNode := Some cur'\<rparr>)
           | (cur', Some e) \<Rightarrow> Inl e))"

text \<open>
  \<^verbatim>\<open>render\<close>. \<open>layout\<close> stands for \<^verbatim>\<open>treemap.render(el)\<close> of webtreemap, which works
  on the tree it was created with: it attaches elements (\<^verbatim>\<open>dom\<close>) to nodes. Before the
  first \<^verbatim>\<open>show\<close> the field \<^verbatim>\<open>treemap\<close> is \<^verbatim>\<open>undefined\<close>.
\<close>

definition TreemapViewer_render :: "(node \<Rightarrow> node) \<Rightarrow> node viewer \<Rightarrow> error + node viewer" where
  "TreemapViewer_render layout this =
     (case currentRootNode this of
        None \<Rightarrow> Inl TypeError
      | Some cur \<Rightarrow> TreemapViewer_updateColors (this\<lparr>currentRootNode := Some (layout cur)\<rparr>))"

definition TreemapViewer_show ::
  "(node \<Rightarrow> node) \<Rightarrow> node viewer \<Rightarrow> jsstring \<Rightarrow> error + node viewer" where
  "TreemapViewer_show layout this i =
     (case show_select this i of
        Inl e \<Rightarrow> Inl e
      | Inr n \<Rightarrow>
          TreemapViewer_render layout (this\<lparr>currentRootNode := Some (setTitle (JSON_clone n))\<rparr>))"

subsection \<open>The message handler of main\<close>

text \<open>
  The page as far as the handler of \<^verbatim>\<open>message\<close> events reads and writes it: the window
  that opened this one (\<^verbatim>\<open>self.opener\<close>) and whether it is closed, the element
  \<^verbatim>\<open>.bundle-selector\<close> (its options as pairs of value and text, its value, and the
  number of its \<^verbatim>\<open>change\<close> listeners), whether the element \<^verbatim>\<open>main\<close> exists, the
  variable \<^verbatim>\<open>treemapViewer\<close>, whether \<^verbatim>\<open>window.__treemapViewer\<close> holds that viewer, the
  messages posted to the opener, and the calls of \<^verbatim>\<open>window.ga\<close>, if it exists.
\<close>

type_synonym window = nat

datatype message = Opened | Rendered

record selector =
  options :: "(jsstring \<times> jsstring) list"
  selected :: jsstring
  change_listeners :: nat

record page =
  opener :: "window option"
  opener_closed :: bool
  bundle_selector :: "selector option"
  main_el :: bool
  treemapViewer :: "node viewer option"
  debug_handle :: bool
  posted :: "message list"
  ga :: bool
  ga_events :: nat

text \<open>
  A message event: its source and its data, \<open>None\<close> for data that is \<^verbatim>\<open>null\<close> or
  \<^verbatim>\<open>undefined\<close>. A field of the payload \<^verbatim>\<open>{documentUrl, id, rootNodes}\<close> that is
  missing is \<open>None\<close>; a string is falsy when it is missing or empty, an array when it
  is missing.
\<close>

record payload =
  p_documentUrl :: "jsstring option"
  p_id :: "jsstring option"
  p_rootNodes :: "node rootnode list option"

record message_event =
  source :: "window option"
  payload_of :: "payload option"

text \<open>\<^verbatim>\<open>bundleSelectorEl.value = id\<close>: the value stays empty when no option has it.\<close>

definition set_selected :: "jsstring \<Rightarrow> selector \<Rightarrow> selector" where
  "set_selected i sel = sel\<lparr>selected := (if i \<in> fst ` set (options sel) then i else [])\<rparr>"

definition makeOption :: "jsstring \<Rightarrow> jsstring \<Rightarrow> selector \<Rightarrow> selector" where
  "makeOption v t sel = sel\<lparr>options := options sel @ [(v, t)]\<rparr>"

text \<open>
  The start of \<^verbatim>\<open>main\<close>: a window that has an open opener tells it that it is ready.
\<close>

definition main_start :: "page \<Rightarrow> page" where
  "main_start pg =
     (if opener pg \<noteq> None \<and> \<not> opener_closed pg then pg\<lparr>posted := posted pg @ [Opened]\<rparr> else pg)"

text \<open>
  The handler. Its result is the page after it and the exception that ended it, if
  one did. \<^verbatim>\<open>find\<close> throws an \<^verbatim>\<open>Error\<close> when the element is missing; destructuring
  data that is \<^verbatim>\<open>null\<close> or \<^verbatim>\<open>undefined\<close> is a TypeError.
\<close>

definition on_message ::
  "(node \<Rightarrow> node) \<Rightarrow> (node \<Rightarrow> node) \<Rightarrow> page \<Rightarrow> message_event \<Rightarrow> page \<times> error option" where
  "on_message webtreemap_sort layout pg e =
     (if source e \<noteq> opener pg then (pg, None)
      else
        (case payload_of e of
           None \<Rightarrow> (pg, Some TypeError)
         | Some d \<Rightarrow>
        (case p_rootNodes d of
           None \<Rightarrow> (pg, None)
         | Some rs \<Rightarrow>
        (case p_documentUrl d of
           None \<Rightarrow> (pg, None)
         | Some url \<Rightarrow>
        (if url = [] then (pg, None) else
        (case p_id d of
           None \<Rightarrow> (pg, None)
         | Some i \<Rightarrow>
        (if i = [] then (pg, None) else
        (case bundle_selector pg of
           None \<Rightarrow> (pg, Some (Error (ascii ''query .bundle-selector not found'')))
         | Some sel \<Rightarrow>
             (let sel1 = makeOption (ascii ''javascript'') (url @ ascii '' (all javascript)'') sel;
                  sel2 = foldl (\<lambda>s rootNode. makeOption (id_r rootNode) (id_r rootNode) s) sel1 rs;
                  sel3 = set_selected i sel2;
                  sel4 = sel3\<lparr>change_listeners := Suc (change_listeners sel3)\<rparr>;
                  pg1 = pg\<lparr>bundle_selector := Some sel4\<rparr>
              in if \<not> main_el pg1 then (pg1, Some (Error (ascii ''query main not found'')))
                 else
                   (let v = TreemapViewer webtreemap_sort url rs;
                        pg2 = pg1\<lparr>treemapViewer := Some v\<rparr>
                    in case TreemapViewer_show layout v i of
                         Inl err \<Rightarrow> (pg2, Some err)
                       | Inr v' \<Rightarrow>
                           (let pg3 = pg2\<lparr>treemapViewer := Some v', debug_handle := True\<rparr>;
                                pg4 = (if opener pg3 \<noteq> None \<and> \<not> opener_closed pg3
                                       then pg3\<lparr>posted := posted pg3 @ [Rendered]\<rparr> else pg3);
                                pg5 = (if ga pg4 then pg4\<lparr>ga_events := Suc (ga_events pg4)\<rparr> else pg4)
                            in (pg5, None))))))))))))"

subsection \<open>show on a store of objects\<close>

text \<open>
  The trees above are values. To say what \<^verbatim>\<open>show\<close> shares with \<^verbatim>\<open>rootNodes\<close> and what
  it writes, the same statements are modelled once more on a store: a node is an
  object at an address, its \<^verbatim>\<open>children\<close> are addresses, a root and the viewer refer to
  nodes by address. The store is the list of the objects allocated so far; the address
  of an object is its index, and a new object goes to the end.
\<close>

type_synonym addr = nat

record obj =
  o_data :: nfields
  o_children :: "addr list option"

type_synonym heap = "obj list"

text \<open>An address outside the store is no state of the program; reading it fails.\<close>

definition lookup :: "heap \<Rightarrow> addr \<Rightarrow> obj option" where
  "lookup h a = (if a < length h then Some (h ! a) else None)"

text \<open>
  \<^verbatim>\<open>JSON.stringify\<close> reads the object graph from an address and gives the tree it
  writes as text, without the elements \<^verbatim>\<open>dom\<close>. On a graph with a cycle it raises a
  TypeError. The first argument bounds the depth of the recursion; a path through more
  objects than the store holds runs through a cycle, so the callers pass the length of
  the store.
\<close>

fun JSON_stringify :: "nat \<Rightarrow> heap \<Rightarrow> addr \<Rightarrow> error + node"
  and JSON_stringify_list :: "nat \<Rightarrow> heap \<Rightarrow> addr list \<Rightarrow> error + node list"
  where
    "JSON_stringify 0 h a = Inl TypeError"
  | "JSON_stringify (Suc k) h a =
      (case lookup h a of
         None \<Rightarrow> Inl TypeError
       | Some ob \<Rightarrow>
          (case o_children ob of
             None \<Rightarrow> Inr (Node ((o_data ob)\<lparr>dom := None\<rparr>) None)
           | Some as \<Rightarrow>
              (case JSON_stringify_list k h as of
                 Inl e \<Rightarrow> Inl e
               | Inr ts \<Rightarrow> Inr (Node ((o_data ob)\<lparr>dom := None\<rparr>) (Some ts)))))"
  | "JSON_stringify_list k h [] = Inr []"
  | "JSON_stringify_list k h (a # as) =
      (case JSON_stringify k h a of
         Inl e \<Rightarrow> Inl e
       | Inr t \<Rightarrow>
          (case JSON_stringify_list k h as of
             Inl e \<Rightarrow> Inl e
           | Inr ts \<Rightarrow> Inr (t # ts)))"

text \<open>\<^verbatim>\<open>JSON.parse\<close> allocates a new object for every node of the tree it reads.\<close>

fun JSON_parse :: "node \<Rightarrow> heap \<Rightarrow> addr \<times> heap"
  and JSON_parse_list :: "node list \<Rightarrow> heap \<Rightarrow> addr list \<times> heap"
  where
    "JSON_parse (Node f cs) h =
      (case cs of
         None \<Rightarrow> (length h, h @ [\<lparr>o_data = f, o_children = None\<rparr>])
       | Some ts \<Rightarrow>
          (case JSON_parse_list ts h of
             (as, h1) \<Rightarrow> (length h1, h1 @ [\<lparr>o_data = f, o_children = Some as\<rparr>])))"
  | "JSON_parse_list [] h = ([], h)"
  | "JSON_parse_list (t # ts) h =
      (case JSON_parse t h of
         (a, h1) \<Rightarrow> (case JSON_parse_list ts h1 of (as, h2) \<Rightarrow> (a # as, h2)))"

text \<open>
  \<^verbatim>\<open>dfs\<close> on the store, for a callback that writes fields of the node it visits. Its
  result is the store after it and the exception that ended it, if one did. On a graph
  with a cycle the recursion does not end and the call stack overflows, a RangeError;
  the depth is bounded as for \<^verbatim>\<open>JSON.stringify\<close>.
\<close>

fun dfs_heap :: "nat \<Rightarrow> heap \<Rightarrow> addr \<Rightarrow> (nfields \<Rightarrow> nfields) \<Rightarrow> error option \<times> heap"
  and dfs_heap_list :: "nat \<Rightarrow> heap \<Rightarrow> addr list \<Rightarrow> (nfields \<Rightarrow> nfields) \<Rightarrow> error option \<times> heap"
  where
    "dfs_heap 0 h a fn = (Some RangeError, h)"
  | "dfs_heap (Suc k) h a fn =
      (case lookup h a of
         None \<Rightarrow> (Some TypeError, h)
       | Some ob \<Rightarrow>
          (let h1 = h[a := ob\<lparr>o_data := fn (o_data ob)\<rparr>] in
           case o_children ob of
             None \<Rightarrow> (None, h1)
           | Some as \<Rightarrow> dfs_heap_list k h1 as fn))"
  | "dfs_heap_list k h [] fn = (None, h)"
  | "dfs_heap_list k h (a # as) fn =
      (case dfs_heap k h a fn of
         (Some e, h1) \<Rightarrow> (Some e, h1)
       | (None, h1) \<Rightarrow> dfs_heap_list k h1 as fn)"

text \<open>
  The first statement of \<^verbatim>\<open>show\<close>. The array \<^verbatim>\<open>children\<close> of the aggregate is new,
  its entries are the nodes of the roots themselves.
\<close>

definition show_select_heap :: "addr viewer \<Rightarrow> heap \<Rightarrow> jsstring \<Rightarrow> error + addr \<times> heap" where
  "show_select_heap this h i =
     (if i = ascii ''javascript'' then
        (let cs = map node (filter (\<lambda>rootNode. group_r rootNode = i) (rootNodes this)) in
         case those (map (lookup h) cs) of
           None \<Rightarrow> Inl TypeError
         | Some obs \<Rightarrow>
             Inr (length h,
                  h @ [\<lparr>o_data =
                          \<lparr>id_n = None,
                           size_n = foldl (\<lambda>acc cur. size_n (o_data cur) + acc) 0 obs,
                           wastedBytes = foldl (\<lambda>acc cur. wastedBytes (o_data cur) + acc) 0 obs,
                           originalId = Some (documentUrl this),
                           idHash = None,
                           dom = None\<rparr>,
                        o_children = Some cs\<rparr>]))
      else
        (case find (\<lambda>rootNode. id_r rootNode = i) (rootNodes this) of
           None \<Rightarrow> Inl TypeError
         | Some rootNode \<Rightarrow> Inr (node rootNode, h)))"

text \<open>
  \<^verbatim>\<open>show\<close> up to and including \<^verbatim>\<open>setTitle\<close>: the result is the exception, if any, the
  viewer and the store. What follows in the source, the layout library working on
  \<^verbatim>\<open>currentRootNode\<close>, is any sequence of the steps \<open>lib_steps\<close> below.
\<close>

definition show_heap :: "addr viewer \<Rightarrow> heap \<Rightarrow> jsstring \<Rightarrow> error option \<times> addr viewer \<times> heap" where
  "show_heap this h i =
     (case show_select_heap this h i of
        Inl e \<Rightarrow> (Some e, this, h)
      | Inr (a, h1) \<Rightarrow>
          (let this1 = this\<lparr>currentRootNode := Some a\<rparr> in
           case JSON_stringify (length h1) h1 a of
             Inl e \<Rightarrow> (Some e, this1, h1)
           | Inr t \<Rightarrow>
               (case JSON_parse t h1 of
                  (c, h2) \<Rightarrow>
                    (case dfs_heap (length h2) h2 c setTitle_fn of
                       (e, h3) \<Rightarrow> (e, this1\<lparr>currentRootNode := Some c\<rparr>, h3)))))"

text \<open>The addresses that can be reached from an address by following \<^verbatim>\<open>children\<close>.\<close>

inductive_set reach :: "heap \<Rightarrow> addr \<Rightarrow> addr set" for h :: heap and a :: addr where
  start: "a \<in> reach h a"
| child: "b \<in> reach h a \<Longrightarrow> lookup h b = Some ob \<Longrightarrow> o_children ob = Some as \<Longrightarrow> c \<in> set as
    \<Longrightarrow> c \<in> reach h a"

text \<open>
  What code can do that was handed the reference \<open>c\<close> when the store was \<open>h0\<close>: it
  knows the objects reachable from \<open>c\<close> and the objects allocated since; it can write
  any fields into an object it knows, with children that it knows, and it can
  allocate objects with children that it knows.
\<close>

definition known :: "addr \<Rightarrow> heap \<Rightarrow> heap \<Rightarrow> addr \<Rightarrow> bool" where
  "known c h0 h b = (b \<in> reach h c \<or> length h0 \<le> b)"

inductive lib_steps :: "addr \<Rightarrow> heap \<Rightarrow> heap \<Rightarrow> bool" for c :: addr and h0 :: heap where
  stay: "lib_steps c h0 h0"
| store: "lib_steps c h0 h \<Longrightarrow> b < length h \<Longrightarrow> known c h0 h b
    \<Longrightarrow> (\<And>as a. o_children ob = Some as \<Longrightarrow> a \<in> set as \<Longrightarrow> known c h0 h a)
    \<Longrightarrow> lib_steps c h0 (h[b := ob])"
| fresh: "lib_steps c h0 h
    \<Longrightarrow> (\<And>as a. o_children ob = Some as \<Longrightarrow> a \<in> set as \<Longrightarrow> known c h0 h a)
    \<Longrightarrow> lib_steps c h0 (h @ [ob])"

text \<open>
  A store is closed from \<open>m\<close> when no object at an address from \<open>m\<close> on refers to
  an address below \<open>m\<close>.
\<close>

definition closed_from :: "nat \<Rightarrow> heap \<Rightarrow> bool" where
  "closed_from m h =
     (\<forall>b as a. m \<le> b \<and> b < length h \<and> o_children (h ! b) = Some as \<and> a \<in> set as \<longrightarrow> m \<le> a)"

text \<open>
  The objects that \<^verbatim>\<open>JSON.parse\<close> allocates for a tree when the store has \<open>lo\<close>
  objects, and the addresses of the objects for a list of trees.
\<close>

fun cells :: "nat \<Rightarrow> node \<Rightarrow> obj list"
  and cells_list :: "nat \<Rightarrow> node list \<Rightarrow> obj list"
  and addrs :: "nat \<Rightarrow> node list \<Rightarrow> addr list"
  where
    "cells lo (Node f cs) =
       (case cs of
          None \<Rightarrow> [\<lparr>o_data = f, o_children = None\<rparr>]
        | Some ts \<Rightarrow> cells_list lo ts @ [\<lparr>o_data = f, o_children = Some (addrs lo ts)\<rparr>])"
  | "cells_list lo [] = []"
  | "cells_list lo (t # ts) = cells lo t @ cells_list (lo + length (cells lo t)) ts"
  | "addrs lo [] = []"
  | "addrs lo (t # ts) = (lo + length (cells lo t) - 1) # addrs (lo + length (cells lo t)) ts"

text \<open>
  The viewer over trees that belongs to a viewer over addresses, when the graphs of
  its roots read as the trees \<open>ts\<close>.
\<close>

definition tree_viewer :: "addr viewer \<Rightarrow> node list \<Rightarrow> node viewer" where
  "tree_viewer this ts =
     \<lparr>documentUrl = documentUrl this,
      rootNodes = map (\<lambda>(r, t). \<lparr>id_r = id_r r, group_r = group_r r, node = t\<rparr>) (zip (rootNodes this) ts),
      currentRootNode = None\<rparr>"

subsection \<open>Notions used to state the properties\<close>

text \<open>
  The palette entry that \<^verbatim>\<open>updateColors\<close> picks for a node, and the real number
  \<open>25 + (85 - 25) * (1 - wastedBytes / size)\<close> of the colour formula, which the lightness
  that the code computes in doubles is compared with.
\<close>

definition palette_index :: "nfields \<Rightarrow> nat" where
  "palette_index n = (case idHash n of None \<Rightarrow> 0 | Some h \<Rightarrow> h mod length colors)"


text \<open>A node as the callback of \<^verbatim>\<open>updateColors\<close> leaves it.\<close>

definition recolor :: "nfields \<Rightarrow> nfields" where
  "recolor n = fst (updateColors_step n None)"

text \<open>The node that a call of \<^verbatim>\<open>show\<close>, \<^verbatim>\<open>render\<close> or \<^verbatim>\<open>updateColors\<close> leaves on display.\<close>

definition shown :: "error + node viewer \<Rightarrow> nfields option" where
  "shown r = (case r of Inl e \<Rightarrow> None | Inr v \<Rightarrow> map_option data (currentRootNode v))"

text \<open>
  Concrete data: a \<^verbatim>\<open>webtreemap.sort\<close> that finds every list of children in order
  already, a layout that attaches an element to every node, two roots of the group
  \<^verbatim>\<open>javascript\<close> with sizes 100 and 200 and wasted bytes 40 and 50, the node on
  display after \<^verbatim>\<open>show('javascript')\<close> on them, and two rendered nodes.
\<close>

definition keep_order :: "node \<Rightarrow> node" where
  "keep_order t = t"

definition attach_all :: "node \<Rightarrow> node" where
  "attach_all t = dfs_write t (\<lambda>n. n\<lparr>dom := Some \<lparr>backgroundColor = [], color = []\<rparr>\<rparr>)"

definition url0 :: jsstring where
  "url0 = ascii ''https://x''"

definition leaf :: "jsstring \<Rightarrow> rat \<Rightarrow> rat \<Rightarrow> node" where
  "leaf i sz w =
     Node \<lparr>id_n = Some i, size_n = sz, wastedBytes = w, originalId = None, idHash = None,
           dom = None\<rparr> (Some [])"

definition roots0 :: "node rootnode list" where
  "roots0 =
     [\<lparr>id_r = ascii ''a.js'', group_r = ascii ''javascript'', node = leaf (ascii ''a.js'') 100 40\<rparr>,
      \<lparr>id_r = ascii ''b.js'', group_r = ascii ''javascript'', node = leaf (ascii ''b.js'') 200 50\<rparr>]"

definition aggregate0 :: nfields where
  "aggregate0 =
     \<lparr>id_n = Some (ascii ''https://x'' @ bullet @ ascii ''300'' @ bullet @ ascii ''30''),
      size_n = 300, wastedBytes = 90, originalId = Some (ascii ''https://x''), idHash = None,
      dom = Some \<lparr>backgroundColor = ascii ''hsl(30, 60%, 67%)'', color = ascii ''black''\<rparr>\<rparr>"

definition node_a :: nfields where
  "node_a = \<lparr>id_n = Some (ascii ''a.js''), size_n = 100, wastedBytes = 40,
             originalId = Some (ascii ''a.js''), idHash = Some 688,
             dom = Some \<lparr>backgroundColor = [], color = []\<rparr>\<rparr>"

definition node_z :: nfields where
  "node_z = \<lparr>id_n = Some (ascii ''z.js''), size_n = 0, wastedBytes = 0,
             originalId = Some (ascii ''z.js''), idHash = Some 1,
             dom = Some \<lparr>backgroundColor = [], color = []\<rparr>\<rparr>"

text \<open>A viewer that has the first rendered node on display, with the second as its child.\<close>

definition viewer_a :: "node viewer" where
  "viewer_a =
     \<lparr>documentUrl = url0, rootNodes = [],
      currentRootNode = Some (Node node_a (Some [Node node_z None]))\<rparr>"



text \<open>The two roots on a store, and a viewer for them.\<close>

definition heap0 :: heap where
  "heap0 =
     [\<lparr>o_data = \<lparr>id_n = Some (ascii ''a.js''), size_n = 100, wastedBytes = 40,
                 originalId = Some (ascii ''a.js''), idHash = Some 364, dom = None\<rparr>,
       o_children = Some []\<rparr>,
      \<lparr>o_data = \<lparr>id_n = Some (ascii ''b.js''), size_n = 200, wastedBytes = 50,
                 originalId = Some (ascii ''b.js''), idHash = Some 365, dom = None\<rparr>,
       o_children = Some []\<rparr>]"

definition viewer0 :: "addr viewer" where
  "viewer0 =
     \<lparr>documentUrl = url0,
      rootNodes = [\<lparr>id_r = ascii ''a.js'', group_r = ascii ''javascript'', node = 0\<rparr>,
                   \<lparr>id_r = ascii ''b.js'', group_r = ascii ''javascript'', node = 1\<rparr>],
      currentRootNode = None\<rparr>"

section \<open>Properties\<close>

subsection \<open>The traversal\<close>

lemma dfs_children_write:
  "fst (dfs_children xs (\<lambda>f s. (g f, s)) (u::unit)) = map (\<lambda>c. fst (dfs c (\<lambda>f s. (g f, s)) ())) xs"
  by (induction xs) (auto simp: split_beta)

lemma dfs_write_Node:
  "dfs_write (Node f cs) g = Node (g f) (map_option (map (\<lambda>c. dfs_write c g)) cs)"
  by (cases cs) (auto simp: dfs_write_def split_beta dfs_children_write)

lemma dfs_state:
  "snd (dfs t fn s) = foldl (\<lambda>s f. snd (fn f s)) s (map data (preorder t))"
  "snd (dfs_children xs fn s) = foldl (\<lambda>s f. snd (fn f s)) s (map data (preorder_children xs))"
proof (induction t fn s and xs fn s rule: dfs_dfs_children.induct)
  case (1 f cs fn s)
  show ?case
  proof (cases cs)
    case None
    then show ?thesis by (simp add: split_beta)
  next
    case (Some xs)
    have "snd (dfs_children xs fn (snd (fn f s))) =
        foldl (\<lambda>s f. snd (fn f s)) (snd (fn f s)) (map data (preorder_children xs))"
      using "1" [of "fst (fn f s)" "snd (fn f s)" xs] Some by simp
    with Some show ?thesis by (simp add: split_beta)
  qed
next
  case (2 fn s)
  show ?case by simp
next
  case (3 c cs fn s)
  have "snd (dfs_children cs fn (snd (dfs c fn s))) =
      foldl (\<lambda>s f. snd (fn f s)) (snd (dfs c fn s)) (map data (preorder_children cs))"
    using "3.IH"(2) [of "fst (dfs c fn s)" "snd (dfs c fn s)"] by simp
  with "3.IH"(1) show ?case by (simp add: split_beta)
qed

lemma preorder_write:
  "map data (preorder (dfs_write t g)) = map g (map data (preorder t))"
  "map data (preorder_children (map (\<lambda>c. dfs_write c g) xs)) = map g (map data (preorder_children xs))"
  by (induction t and xs rule: preorder_preorder_children.induct)
     (auto simp: dfs_write_Node split: option.splits)

lemma positions_write:
  "positions (dfs_write t g) = positions t"
  "positions_children i (map (\<lambda>c. dfs_write c g) xs) = positions_children i xs"
  by (induction t and i xs rule: positions_positions_children.induct)
     (auto simp: dfs_write_Node split: option.splits)

lemma subtree_positions:
  "map (subtree_at t) (positions t) = map Some (preorder t)"
  "\<And>f pre. length pre = i \<Longrightarrow>
     map (subtree_at (Node f (Some (pre @ xs)))) (positions_children i xs) = map Some (preorder_children xs)"
proof (induction t and i xs rule: positions_positions_children.induct)
  case (1 f cs)
  show ?case
  proof (cases cs)
    case None
    then show ?thesis by simp
  next
    case (Some xs)
    from "1" [OF Some, of "[]" f] Some show ?thesis by simp
  qed
next
  case (2 i)
  show ?case by simp
next
  case (3 i c cs)
  have a: "map (subtree_at (Node f (Some (pre @ c # cs)))) (map ((#) i) (positions c))
      = map (subtree_at c) (positions c)"
    using "3.prems" by (simp add: nth_append)
  have b: "map (subtree_at (Node f (Some ((pre @ [c]) @ cs)))) (positions_children (Suc i) cs)
      = map Some (preorder_children cs)"
    by (rule "3.IH"(2)) (simp add: "3.prems")
  from a b "3.IH"(1) show ?case by simp
qed

lemma positions_set:
  "p \<in> set (positions t) \<longleftrightarrow> subtree_at t p \<noteq> None"
  "q \<in> set (positions_children i xs) \<longleftrightarrow>
     (\<exists>k p. q = (i + k) # p \<and> k < length xs \<and> subtree_at (xs ! k) p \<noteq> None)"
proof (induction t and i xs arbitrary: p and q rule: positions_positions_children.induct)
  case (1 f cs)
  show ?case
  proof (cases cs)
    case None
    then show ?thesis by (cases p) auto
  next
    case (Some xs)
    with "1" [of xs] show ?thesis by (cases p) auto
  qed
next
  case (2 i)
  show ?case by simp
next
  case (3 i c cs)
  show ?case
  proof
    assume "q \<in> set (positions_children i (c # cs))"
    then consider p where "q = i # p" "p \<in> set (positions c)"
      | "q \<in> set (positions_children (Suc i) cs)" by auto
    then show "\<exists>k p. q = (i + k) # p \<and> k < length (c # cs) \<and> subtree_at ((c # cs) ! k) p \<noteq> None"
    proof cases
      case 1
      then have "q = (i + 0) # p \<and> 0 < length (c # cs) \<and> subtree_at ((c # cs) ! 0) p \<noteq> None"
        using "3.IH"(1) by simp
      then show ?thesis by blast
    next
      case 2
      then obtain k p where "q = (Suc i + k) # p" "k < length cs" "subtree_at (cs ! k) p \<noteq> None"
        using "3.IH"(2) by blast
      then have "q = (i + Suc k) # p \<and> Suc k < length (c # cs) \<and> subtree_at ((c # cs) ! Suc k) p \<noteq> None"
        by simp
      then show ?thesis by blast
    qed
  next
    assume "\<exists>k p. q = (i + k) # p \<and> k < length (c # cs) \<and> subtree_at ((c # cs) ! k) p \<noteq> None"
    then obtain k p where kp: "q = (i + k) # p" "k < length (c # cs)" "subtree_at ((c # cs) ! k) p \<noteq> None"
      by blast
    show "q \<in> set (positions_children i (c # cs))"
    proof (cases k)
      case 0
      with kp "3.IH"(1) show ?thesis by simp
    next
      case (Suc k')
      with kp have "q = (Suc i + k') # p \<and> k' < length cs \<and> subtree_at (cs ! k') p \<noteq> None" by simp
      then have "q \<in> set (positions_children (Suc i) cs)" using "3.IH"(2) by blast
      then show ?thesis by simp
    qed
  qed
qed

lemma positions_children_head:
  "q \<in> set (positions_children i xs) \<Longrightarrow> \<exists>k p. q = k # p \<and> i \<le> k"
  by (induction xs arbitrary: i) (auto, fastforce)

lemma positions_order:
  "sorted_wrt (\<lambda>a b. \<not> prefix b a) (positions t)"
  "sorted_wrt (\<lambda>a b. \<not> prefix b a) (positions_children i xs)"
proof (induction t and i xs rule: positions_positions_children.induct)
  case (1 f cs)
  show ?case
  proof (cases cs)
    case None
    then show ?thesis by simp
  next
    case (Some xs)
    have "\<forall>q \<in> set (positions_children 0 xs). \<not> prefix q []"
      using positions_children_head [of _ 0 xs] by auto
    with "1" [of xs] Some show ?thesis by simp
  qed
next
  case (2 i)
  show ?case by simp
next
  case (3 i c cs)
  have "sorted_wrt (\<lambda>a b. \<not> prefix b a) (map ((#) i) (positions c))"
    using "3.IH"(1) by (simp add: sorted_wrt_map)
  moreover have "\<forall>a \<in> set (map ((#) i) (positions c)). \<forall>b \<in> set (positions_children (Suc i) cs). \<not> prefix b a"
    using positions_children_head [of _ "Suc i" cs] by fastforce
  ultimately show ?case using "3.IH"(2) by (simp add: sorted_wrt_append)
qed

lemma dfs_shape:
  "positions (fst (dfs t fn s)) = positions t"
  "positions_children i (fst (dfs_children xs fn s)) = positions_children i xs"
  by (induction t and xs arbitrary: s and s i rule: preorder_preorder_children.induct)
     (auto simp: split_beta split: option.splits)

text \<open>
  C3. \<^verbatim>\<open>dfs(node, fn)\<close> applies \<^verbatim>\<open>fn\<close> to every node of the tree exactly once, in
  pre-order. For every tree \<open>t\<close>, every callback \<open>fn\<close> and every initial state \<open>s\<close>:
  \<^item> the state after the traversal is the one obtained by running \<open>fn\<close> over the list
    \<open>preorder t\<close>, from left to right, once per entry;
  \<^item> in particular a callback that logs its argument, whatever it writes into the
    node, logs the nodes of \<open>preorder t\<close> in this order;
  \<^item> \<open>preorder t\<close> lists the nodes at the positions \<open>positions t\<close>, and these are
    all the positions of the tree (a position is in the list exactly when the tree has a
    node there);
  \<^item> no position is listed after a position that it is a prefix of: every position
    occurs once, and a node comes strictly after each of its ancestors;
  \<^item> the children of a node are visited only when the field is present (\<open>preorder\<close> and
    \<open>positions\<close> of a node without \<open>children\<close> are the node alone), and the
    traversal leaves the shape of the tree as it is;
  \<^item> a callback \<open>g\<close> that writes fields is applied to each node once: after the
    traversal every node holds \<open>g\<close> of the fields it held before.
\<close>

theorem dfs_preorder_once:
  "snd (dfs t fn s) = foldl (\<lambda>s f. snd (fn f s)) s (map data (preorder t))
   \<and> snd (dfs t (\<lambda>f log. (g f, log @ [f])) []) = map data (preorder t)
   \<and> map (subtree_at t) (positions t) = map Some (preorder t)
   \<and> set (positions t) = {p. subtree_at t p \<noteq> None}
   \<and> sorted_wrt (\<lambda>p q. \<not> prefix q p) (positions t)
   \<and> preorder (Node f None) = [Node f None]
   \<and> positions (fst (dfs t fn s)) = positions t
   \<and> map data (preorder (dfs_write t g)) = map g (map data (preorder t))"
proof -
  have "foldl (\<lambda>s f. s @ [f]) l fs = l @ fs" for l fs :: "nfields list"
    by (induction fs arbitrary: l) auto
  then have "snd (dfs t (\<lambda>f log. (g f, log @ [f])) []) = map data (preorder t)"
    by (simp add: dfs_state(1))
  moreover have "set (positions t) = {p. subtree_at t p \<noteq> None}"
    using positions_set(1) [of _ t] by blast
  ultimately show ?thesis
    by (simp add: dfs_state(1) subtree_positions(1) positions_order(1) dfs_shape(1)
        preorder_write(1))
qed

subsection \<open>Doubles\<close>

lemma floor_rat_numeral [simp]:
  "\<lfloor>(numeral a :: rat) / numeral b\<rfloor> = numeral a div numeral b"
  using floor_divide_of_int_eq [of "numeral a" "numeral b", where ?'a = rat] by simp

lemma floor_rat_neg_numeral [simp]:
  "\<lfloor>- ((numeral a :: rat) / numeral b)\<rfloor> = - numeral a div numeral b"
  using floor_divide_of_int_eq [of "- numeral a" "numeral b", where ?'a = rat] by simp

text \<open>The equations that evaluate \<open>to_double\<close> on a numeral.\<close>

lemmas double_eval =
  to_double_def to_double_pos_def nearest_def ulp_def exponent_def binade_down.simps
  binade_up.simps round_even_def Let_def

text \<open>The exponent of a positive rational is the one of its binade.\<close>

lemma binade_up_spec:
  "1 \<le> q \<Longrightarrow> 2 ^ binade_up q \<le> q \<and> q < 2 * 2 ^ binade_up q"
proof (induction q rule: binade_up.induct)
  case (1 q)
  show ?case
  proof (cases "q < 2")
    case True
    with 1(2) show ?thesis by (simp add: binade_up.simps [of q])
  next
    case False
    then have "1 \<le> q / 2" by simp
    with 1(1) [OF False] have "2 ^ binade_up (q / 2) \<le> q / 2 \<and> q / 2 < 2 * 2 ^ binade_up (q / 2)"
      by simp
    with False show ?thesis by (simp add: binade_up.simps [of q])
  qed
qed

lemma binade_down_spec:
  "0 < q \<Longrightarrow> q < 1 \<Longrightarrow> 1 \<le> q * 2 ^ binade_down q \<and> q * 2 ^ binade_down q < 2"
proof (induction q rule: binade_down.induct)
  case (1 q)
  from 1(2,3) have n: "\<not> (q \<le> 0 \<or> 1 \<le> q)" by simp
  show ?case
  proof (cases "2 * q < 1")
    case True
    with 1(1) [OF n] 1(2) have "1 \<le> 2 * q * 2 ^ binade_down (2 * q) \<and> 2 * q * 2 ^ binade_down (2 * q) < 2"
      by simp
    with n show ?thesis by (simp add: binade_down.simps [of q] mult.assoc mult.left_commute)
  next
    case False
    then have "binade_down (2 * q) = 0" by (simp add: binade_down.simps [of "2 * q"])
    with n False 1(3) show ?thesis by (simp add: binade_down.simps [of q])
  qed
qed

lemma exponent_spec:
  assumes "0 < q"
  shows "2 powi exponent q \<le> q \<and> q < 2 powi (exponent q + 1)"
proof (cases "1 \<le> q")
  case True
  with binade_up_spec [OF True] show ?thesis
    by (simp add: exponent_def power_int_add)
next
  case False
  then have l: "q < 1" by simp
  let ?n = "binade_down q"
  from binade_down_spec [OF assms l] have b: "1 \<le> q * 2 ^ ?n" "q * 2 ^ ?n < 2" by simp_all
  have e: "exponent q = - int ?n" using False by (simp add: exponent_def)
  have p1: "(2 :: rat) powi (- int ?n) = 1 / 2 ^ ?n" by (simp add: power_int_minus_divide)
  have p2: "(2 :: rat) powi (- int ?n + 1) = 2 powi (- int ?n) * 2"
    by (rule power_int_add_1) simp
  from b show ?thesis unfolding e p2 p1 by (simp add: field_simps)
qed

lemma exponent_mono:
  assumes "0 < q" and "q \<le> q'"
  shows "exponent q \<le> exponent q'"
proof (rule ccontr)
  assume "\<not> exponent q \<le> exponent q'"
  then have "exponent q' + 1 \<le> exponent q" by simp
  then have "(2 :: rat) powi (exponent q' + 1) \<le> 2 powi exponent q"
    by (intro power_int_increasing) simp_all
  moreover have "0 < q'" using assms by simp
  ultimately show False
    using exponent_spec [OF assms(1)] exponent_spec [of q'] assms(2) by linarith
qed

lemma exponent_nonneg: "1 \<le> q \<Longrightarrow> 0 \<le> exponent q"
  by (simp add: exponent_def)

lemma round_even_ge: "of_int N \<le> m \<Longrightarrow> N \<le> round_even m"
proof -
  assume "of_int N \<le> m"
  then have "N \<le> \<lfloor>m\<rfloor>" by (simp add: le_floor_iff)
  then show ?thesis by (simp add: round_even_def Let_def)
qed

lemma round_even_le: "m \<le> of_int N \<Longrightarrow> round_even m \<le> N"
proof (cases "m = of_int N")
  case True
  then show ?thesis by (simp add: round_even_def)
next
  case False
  assume "m \<le> of_int N"
  with False have "m < of_int N" by simp
  then have "\<lfloor>m\<rfloor> < N" by (simp add: floor_less_iff)
  then show ?thesis by (simp add: round_even_def Let_def)
qed

lemma round_even_int [simp]: "round_even (of_int N) = N"
  by (simp add: round_even_def)

lemma round_even_mono:
  assumes "m \<le> m'"
  shows "round_even m \<le> round_even m'"
proof (cases "\<lfloor>m\<rfloor> = \<lfloor>m'\<rfloor>")
  case True
  with assms show ?thesis by (auto simp: round_even_def Let_def)
next
  case False
  with assms have "\<lfloor>m\<rfloor> + 1 \<le> \<lfloor>m'\<rfloor>" using floor_mono [OF assms] by simp
  moreover have "round_even m \<le> \<lfloor>m\<rfloor> + 1" by (simp add: round_even_def Let_def)
  moreover have "\<lfloor>m'\<rfloor> \<le> round_even m'" by (simp add: round_even_def Let_def)
  ultimately show ?thesis by linarith
qed


lemma ulp_pos [simp]: "0 < ulp q"
  by (simp add: ulp_def)

lemma ulp_nonneg [simp]: "0 \<le> ulp q"
  by (rule less_imp_le) simp

lemma nearest_nonneg: "0 \<le> q \<Longrightarrow> 0 \<le> nearest q"
proof -
  assume "0 \<le> q"
  then have "of_int 0 \<le> q / ulp q" by simp
  then have "0 \<le> round_even (q / ulp q)" by (rule round_even_ge)
  then show ?thesis by (simp add: nearest_def)
qed

lemma nearest_le:
  assumes "0 < q"
  shows "nearest q \<le> 2 powi (max (exponent q) (- 1022) + 1)"
proof -
  let ?c = "max (exponent q) (- 1022)"
  have "(2 :: rat) powi (53 + (?c - 52)) = 2 powi 53 * 2 powi (?c - 52)"
    by (rule power_int_add) simp
  moreover have "53 + (?c - 52) = ?c + 1" by simp
  ultimately have s: "(2 :: rat) powi (?c + 1) = 2 ^ 53 * ulp q"
    unfolding ulp_def by (simp only: power_int_numeral)
  have "q < 2 powi (exponent q + 1)" using exponent_spec [OF assms] by simp
  also have "\<dots> \<le> 2 powi (?c + 1)" by (intro power_int_increasing) simp_all
  finally have "q / ulp q < 2 ^ 53" unfolding s by (simp add: field_simps)
  then have "q / ulp q \<le> of_int (2 ^ 53)" by simp
  then have "round_even (q / ulp q) \<le> 2 ^ 53" by (rule round_even_le)
  then have "(of_int (round_even (q / ulp q)) :: rat) \<le> of_int (2 ^ 53)" by (simp only: of_int_le_iff)
  then have "of_int (round_even (q / ulp q)) * ulp q \<le> 2 ^ 53 * ulp q"
    by (simp add: mult_right_mono)
  then show ?thesis unfolding s nearest_def .
qed

lemma nearest_ge:
  assumes "0 < q" and "- 1022 \<le> exponent q"
  shows "2 powi exponent q \<le> nearest q"
proof -
  have c: "max (exponent q) (- 1022) = exponent q" using assms(2) by simp
  have "(2 :: rat) powi (52 + (exponent q - 52)) = 2 powi 52 * 2 powi (exponent q - 52)"
    by (rule power_int_add) simp
  moreover have "52 + (exponent q - 52) = exponent q" by simp
  ultimately have s: "(2 :: rat) powi exponent q = 2 ^ 52 * ulp q"
    unfolding ulp_def c by (simp only: power_int_numeral)
  have "2 powi exponent q \<le> q" using exponent_spec [OF assms(1)] by simp
  then have "2 ^ 52 \<le> q / ulp q" unfolding s by (simp add: field_simps)
  then have "of_int (2 ^ 52) \<le> q / ulp q" by simp
  then have "2 ^ 52 \<le> round_even (q / ulp q)" by (rule round_even_ge)
  then have "(of_int (2 ^ 52) :: rat) \<le> of_int (round_even (q / ulp q))" by (simp only: of_int_le_iff)
  then have "2 ^ 52 * ulp q \<le> of_int (round_even (q / ulp q)) * ulp q"
    by (simp add: mult_right_mono)
  then show ?thesis unfolding s nearest_def .
qed

lemma nearest_mono:
  assumes "0 < q" and "q \<le> q'"
  shows "nearest q \<le> nearest q'"
proof -
  let ?c = "max (exponent q) (- 1022)"
  let ?c' = "max (exponent q') (- 1022)"
  have q': "0 < q'" using assms by simp
  have le: "?c \<le> ?c'" using exponent_mono [OF assms] by simp
  show ?thesis
  proof (cases "?c = ?c'")
    case True
    then have u: "ulp q' = ulp q" by (simp add: ulp_def)
    have "q / ulp q \<le> q' / ulp q" using assms(2) by (simp add: divide_right_mono)
    then have "round_even (q / ulp q) \<le> round_even (q' / ulp q)" by (rule round_even_mono)
    then have "(of_int (round_even (q / ulp q)) :: rat) \<le> of_int (round_even (q' / ulp q))"
      by (simp only: of_int_le_iff)
    then show ?thesis unfolding nearest_def u by (simp add: mult_right_mono)
  next
    case False
    with le have lt: "?c + 1 \<le> ?c'" by simp
    then have e: "?c' = exponent q'" "- 1022 \<le> exponent q'" by simp_all
    have "nearest q \<le> 2 powi (?c + 1)" by (rule nearest_le [OF assms(1)])
    also have "\<dots> \<le> 2 powi ?c'" using lt by (intro power_int_increasing) simp_all
    also have "\<dots> \<le> nearest q'" unfolding e(1) by (rule nearest_ge [OF q' e(2)])
    finally show ?thesis .
  qed
qed


lemma to_double_mono:
  assumes "0 \<le> q" and "q \<le> q'" and "to_double q' = Fin r'"
  shows "\<exists>r. to_double q = Fin r \<and> 0 \<le> r \<and> r \<le> r'"
proof (cases "q = 0")
  case True
  show ?thesis
  proof (cases "q' = 0")
    case True
    with assms \<open>q = 0\<close> show ?thesis by (simp add: to_double_def)
  next
    case False
    with assms have "0 < q'" by simp
    with assms(3) have "r' = nearest q'" by (simp add: to_double_def to_double_pos_def split: if_splits)
    with nearest_nonneg [of q'] \<open>0 < q'\<close> \<open>q = 0\<close> show ?thesis by (simp add: to_double_def)
  qed
next
  case False
  with assms have p: "0 < q" "0 < q'" by simp_all
  with assms(3) have r: "r' = nearest q'" "\<not> 2 ^ 1024 \<le> nearest q'"
    by (simp_all add: to_double_def to_double_pos_def split: if_splits)
  from nearest_mono [OF p(1) assms(2)] r have "\<not> 2 ^ 1024 \<le> nearest q" "nearest q \<le> r'" by simp_all
  with p(1) nearest_nonneg [of q] show ?thesis by (simp add: to_double_def to_double_pos_def)
qed



lemma to_double_of_nat:
  assumes "n < 2 ^ 53"
  shows "to_double (of_nat n) = Fin (of_nat n)"
proof (cases "n = 0")
  case True
  then show ?thesis by (simp add: to_double_def)
next
  case False
  let ?q = "of_nat n :: rat"
  let ?e = "exponent ?q"
  from False have p: "0 < ?q" "1 \<le> ?q" by simp_all
  have e0: "0 \<le> ?e" by (rule exponent_nonneg [OF p(2)])
  have "?q < 2 ^ 53" using assms by (metis of_nat_less_iff of_nat_numeral of_nat_power)
  with exponent_spec [OF p(1)] have "(2 :: rat) powi ?e < 2 powi 53" by simp
  then have e1: "?e < 53"
    using power_int_increasing [of 53 ?e "2 :: rat"] by (cases "?e < 53") simp_all
  have u: "ulp ?q = 1 / 2 ^ nat (52 - ?e)"
  proof -
    have "max ?e (- 1022) - 52 = - int (nat (52 - ?e))" using e0 e1 by simp
    then show ?thesis unfolding ulp_def by (simp only: power_int_minus_divide power_int_of_nat)
  qed
  have "?q / ulp ?q = of_int (int n * 2 ^ nat (52 - ?e))" by (simp add: u)
  then have "round_even (?q / ulp ?q) = int n * 2 ^ nat (52 - ?e)" by (simp only: round_even_int)
  then have n: "nearest ?q = ?q" by (simp add: nearest_def u)
  have "?q < 2 ^ 1024" using \<open>?q < 2 ^ 53\<close> by (rule less_trans) simp
  with n p show ?thesis by (simp add: to_double_def to_double_pos_def)
qed

lemma to_double_2_53: "to_double (2 ^ 53) = Fin (2 ^ 53)"
  by (simp add: double_eval)

lemma shortest_small:
  assumes "x < 2 ^ 53"
  shows "shortest x j = x"
proof (induction j)
  case 0
  show ?case by (simp add: shortest.simps [of x 0])
next
  case (Suc j)
  define p :: nat where "p = 10 ^ Suc j"
  define lo where "lo = x div p * p"
  define hi where "hi = lo + p"
  have "0 < p" by (simp add: p_def)
  have "lo \<le> x" by (simp add: lo_def)
  with assms have "lo < 2 ^ 53" by simp
  then have lo: "to_double (of_nat lo) = Fin (of_nat x) \<longleftrightarrow> lo = x"
    by (simp add: to_double_of_nat)
  have gt: "x < hi"
    using mod_less_divisor [OF \<open>0 < p\<close>, of x] div_mult_mod_eq [of x p]
    unfolding hi_def lo_def by linarith
  have hi: "to_double (of_nat hi) \<noteq> Fin (of_nat x)"
  proof (cases "hi < 2 ^ 53")
    case True
    with gt show ?thesis by (simp add: to_double_of_nat)
  next
    case False
    then have "(2 :: nat) ^ 53 \<le> hi" by simp
    then have le: "(2 :: rat) ^ 53 \<le> of_nat hi"
      by (metis of_nat_le_iff of_nat_numeral of_nat_power)
    show ?thesis
    proof
      assume a: "to_double (of_nat hi) = Fin (of_nat x)"
      from to_double_mono [OF _ le a] to_double_2_53 have "(2 :: rat) ^ 53 \<le> of_nat x" by simp
      then have "(2 :: nat) ^ 53 \<le> x" by (metis of_nat_le_iff of_nat_numeral of_nat_power)
      with assms show False by simp
    qed
  qed
  have s: "shortest x (Suc j) =
      (if to_double (of_nat lo) = Fin (of_nat x) \<and> to_double (of_nat hi) = Fin (of_nat x) then
              (if x - lo < hi - x then lo
               else if hi - x < x - lo then hi
               else if even (x div p) then lo else hi)
            else if to_double (of_nat lo) = Fin (of_nat x) then lo
            else if to_double (of_nat hi) = Fin (of_nat x) then hi
            else shortest x j)"
    unfolding hi_def lo_def p_def by (subst shortest.simps) (simp add: Let_def)
  show ?case unfolding s using lo hi Suc by simp
qed

lemma exponent_eqI:
  assumes "0 < q" and "2 powi e \<le> q" and "q < 2 powi (e + 1)"
  shows "exponent q = e"
proof (rule antisym)
  show "exponent q \<le> e"
  proof (rule ccontr)
    assume "\<not> exponent q \<le> e"
    then have "(2 :: rat) powi (e + 1) \<le> 2 powi exponent q" by (intro power_int_increasing) simp_all
    with exponent_spec [OF assms(1)] assms(3) show False by linarith
  qed
  show "e \<le> exponent q"
  proof (rule ccontr)
    assume "\<not> e \<le> exponent q"
    then have "(2 :: rat) powi (exponent q + 1) \<le> 2 powi e" by (intro power_int_increasing) simp_all
    with exponent_spec [OF assms(1)] assms(2) show False by linarith
  qed
qed

lemma to_double_binade:
  assumes "2 powi e \<le> q" and "q < 2 powi (e + 1)" and "- 1022 \<le> e" and "e < 1023"
  shows "to_double q = Fin (of_int (round_even (q / 2 powi (e - 52))) * 2 powi (e - 52))"
proof -
  have "(0 :: rat) < 2 powi e" by simp
  with assms(1) have p: "0 < q" by linarith
  have e: "exponent q = e" by (rule exponent_eqI [OF p assms(1,2)])
  have u: "ulp q = 2 powi (e - 52)" using assms(3) by (simp add: ulp_def e)
  have "nearest q \<le> 2 powi (e + 1)" using nearest_le [OF p] assms(3) by (simp add: e)
  also have "\<dots> \<le> 2 powi 1023" using assms(4) by (intro power_int_increasing) simp_all
  also have "\<dots> < 2 ^ 1024" by simp
  finally have "\<not> 2 ^ 1024 \<le> nearest q" by simp
  with p show ?thesis by (simp add: to_double_def to_double_pos_def nearest_def u)
qed

lemma to_double_2_63: "2 ^ 63 \<le> q \<Longrightarrow> q < 2 ^ 64 \<Longrightarrow> to_double q = Fin (of_int (round_even (q / 2 ^ 11)) * 2 ^ 11)"
  using to_double_binade [of 63 q] by simp

lemma to_double_2_64: "2 ^ 64 \<le> q \<Longrightarrow> q < 2 ^ 65 \<Longrightarrow> to_double q = Fin (of_int (round_even (q / 2 ^ 12)) * 2 ^ 12)"
  using to_double_binade [of 64 q] by simp

text \<open>
  Below \<open>2 ^ 53\<close> every integer is a double, and the shortest decimal for it is the
  integer itself: it is printed with all its digits. From \<open>2 ^ 53\<close> on digits are
  left out: \<open>2 ^ 64 = 18446744073709551616\<close> prints as \<^verbatim>\<open>18446744073709552000\<close>.
\<close>

lemma nat_to_string_small:
  "n < 2 ^ 53 \<Longrightarrow>
   nat_to_string n =
     (let ds = digits n in
      if length ds \<le> 21 then ds
      else (case strip_zeros ds of
              [] \<Rightarrow> ds
            | d # rest \<Rightarrow>
                (if rest = [] then [d] else d # ascii ''.'' @ rest)
                @ ascii ''e+'' @ digits (length ds - 1)))"
  by (simp add: nat_to_string_def shortest_small)

lemma shortest_2_64: "shortest (2 ^ 64) 19 = 18446744073709552000"
  by (simp add: shortest.simps to_double_2_63 to_double_2_64 round_even_def Let_def)

subsection \<open>Labels\<close>


lemma setTitle_fn_eq:
  "setTitle_fn n =
     n\<lparr>id_n := Some (interpolate (originalId n) @ bullet @ ToString (Math_round (Fin (size_n n)))
           @ bullet @ ToString (Math_round (jsmul (jsdiv (Fin (wastedBytes n)) (Fin (size_n n))) (Fin 100))))\<rparr>"
  by (simp add: setTitle_fn_def MODE_def ascii_def Let_def)

lemma nat_to_string_100: "nat_to_string 100 = ascii ''100''"
  by (simp add: digits.simps ascii_def nat_to_string_small)

lemma nat_to_string_40: "nat_to_string 40 = ascii ''40''"
  by (simp add: digits.simps ascii_def nat_to_string_small)


lemma dfs_write_twice:
  "dfs_write (dfs_write t g) g' = dfs_write t (\<lambda>f. g' (g f))"
  "map (\<lambda>c. dfs_write (dfs_write c g) g') xs = map (\<lambda>c. dfs_write c (\<lambda>f. g' (g f))) xs"
proof (induction t and xs rule: preorder_preorder_children.induct)
  case (1 f cs)
  then show ?case by (cases cs) (simp_all add: dfs_write_Node comp_def)
qed simp_all

lemma setTitle_fn_idem: "setTitle_fn (setTitle_fn n) = setTitle_fn n"
  by (simp add: setTitle_fn_eq)

lemma setTitle_idem: "setTitle (setTitle t) = setTitle t"
  by (simp add: setTitle_def dfs_write_twice(1) setTitle_fn_idem)

text \<open>
  C6. Running \<^verbatim>\<open>setTitle\<close> again changes nothing: after any number \<open>k + 1\<close> of runs
  the tree, and so the id of every node, is what it is after one run. The label does
  not depend on the id written before: it is computed from \<^verbatim>\<open>originalId\<close>,
  \<^verbatim>\<open>size\<close> and \<^verbatim>\<open>wastedBytes\<close>, which \<^verbatim>\<open>setTitle\<close> does not write.
\<close>

theorem setTitle_idempotent:
  "(setTitle ^^ Suc k) t = setTitle t
   \<and> setTitle_fn (n\<lparr>id_n := x\<rparr>) = setTitle_fn n
   \<and> originalId (setTitle_fn n) = originalId n
   \<and> size_n (setTitle_fn n) = size_n n
   \<and> wastedBytes (setTitle_fn n) = wastedBytes n"
proof -
  have "(setTitle ^^ Suc k) t = setTitle t"
    by (induction k) (simp_all add: setTitle_idem)
  then show ?thesis
    by (simp add: setTitle_fn_eq)
qed

subsection \<open>The selection of all JavaScript\<close>

lemma foldl_plus:
  "foldl (\<lambda>acc cur. g cur + acc) a cs = a + sum_list (map g cs)" for a :: rat
  by (induction cs arbitrary: a) (simp_all add: algebra_simps)






subsection \<open>Colours\<close>

lemma idHash_index:
  "jsor (jsrem (idHash_number n) (Fin (of_nat (length colors)))) (Fin 0) = Fin (of_nat (palette_index n))"
proof (cases "idHash n")
  case None
  then show ?thesis
    by (simp add: idHash_number_def palette_index_def jsor_def truthy_def)
next
  case (Some h)
  have "\<lfloor>(of_nat h :: rat) / 4\<rfloor> = int (h div 4)"
    using floor_divide_of_nat_eq [of h 4, where ?'a = rat] by simp
  then have t: "trunc (of_nat h / 4) = int (h div 4)"
    by (simp add: trunc_def)
  have "(of_nat h :: rat) = of_nat (4 * (h div 4) + h mod 4)"
    by simp
  then have "(of_nat h :: rat) - 4 * of_nat (h div 4) = of_nat (h mod 4)"
    by (simp only: of_nat_add of_nat_mult; simp)
  with t Some show ?thesis
    by (simp add: idHash_number_def palette_index_def jsor_def truthy_def colors_def)
qed

lemma length_colors: "length colors = 4"
  by (simp add: colors_def)

lemma palette_index_less: "palette_index n < length colors"
  unfolding palette_index_def length_colors by (cases "idHash n") simp_all

lemma colors_at_index: "k < length colors \<Longrightarrow> colors_at (Fin (of_nat k)) = Some (colors ! k)"
  by (simp add: colors_at_def)

lemma updateColors_fn_eq:
  "dom n = Some st \<Longrightarrow>
   updateColors_fn n =
     Inr (n\<lparr>dom := Some (st\<lparr>backgroundColor :=
                 hsl (Fin (fst (colors ! palette_index n))) (Fin (snd (colors ! palette_index n)))
                   (Math_round (lightness n)),
               color := (if jsgt (lightness n) (Fin 50) then ascii ''black'' else ascii ''white'')\<rparr>)\<rparr>)"
  by (simp add: updateColors_fn_def idHash_index colors_at_index palette_index_less Let_def)

lemma updateColors_fn_total: "\<exists>n'. updateColors_fn n = Inr n'"
proof (cases "dom n")
  case None
  then show ?thesis by (simp add: updateColors_fn_def)
next
  case (Some st)
  then show ?thesis by (simp add: updateColors_fn_eq)
qed

lemma updateColors_step_None: "updateColors_step n None = (recolor n, None)"
  using updateColors_fn_total [of n] by (auto simp: recolor_def updateColors_step_def)

lemma dfs_pure:
  assumes "\<And>f. fn f s0 = (g f, s0)"
  shows "dfs t fn s0 = (dfs_write t g, s0)"
    and "dfs_children xs fn s0 = (map (\<lambda>c. dfs_write c g) xs, s0)"
  by (induction t and xs rule: preorder_preorder_children.induct)
     (auto simp: assms dfs_write_Node split: option.splits)

lemma dfs_write_data: "data (dfs_write t g) = g (data t)"
  by (cases t) (simp add: dfs_write_Node)

lemma updateColors_viewer:
  "currentRootNode this = Some cur \<Longrightarrow>
   TreemapViewer_updateColors this = Inr (this\<lparr>currentRootNode := Some (dfs_write cur recolor)\<rparr>)"
  by (simp add: TreemapViewer_updateColors_def dfs_pure(1) [of updateColors_step None recolor]
      updateColors_step_None)

lemma recolor_eq:
  "dom n = Some st \<Longrightarrow>
   recolor n =
     n\<lparr>dom := Some (st\<lparr>backgroundColor :=
                 hsl (Fin (fst (colors ! palette_index n))) (Fin (snd (colors ! palette_index n)))
                   (Math_round (lightness n)),
               color := (if jsgt (lightness n) (Fin 50) then ascii ''black'' else ascii ''white'')\<rparr>)\<rparr>"
  by (simp add: recolor_def updateColors_step_def updateColors_fn_eq)

lemma subtree_at_write:
  "subtree_at (dfs_write t g) p = map_option (\<lambda>u. dfs_write u g) (subtree_at t p)"
proof (induction p arbitrary: t)
  case Nil
  show ?case by simp
next
  case (Cons i p)
  show ?case
  proof (cases t)
    case (Node f cs)
    with Cons show ?thesis by (cases cs) (simp_all add: dfs_write_Node)
  qed
qed

text \<open>
  \<^verbatim>\<open>updateColors\<close> on a viewer with a node on display: it returns normally, the tree
  keeps its shape, and the node at every position is the old one as the callback
  leaves it.
\<close>

lemma updateColors_nodes:
  assumes "currentRootNode this = Some cur"
  shows "TreemapViewer_updateColors this = Inr (this\<lparr>currentRootNode := Some (dfs_write cur recolor)\<rparr>)"
    and "positions (dfs_write cur recolor) = positions cur"
    and "subtree_at cur p = Some t \<Longrightarrow>
         subtree_at (dfs_write cur recolor) p = Some (dfs_write t recolor)
         \<and> data (dfs_write t recolor) = recolor (data t)"
  using assms by (simp_all add: updateColors_viewer positions_write(1) subtree_at_write dfs_write_data)

lemma id_hash_a: "id_hash (ascii ''a.js'') = 364"
  by (simp add: id_hash_def ascii_def is_high_surrogate_def is_low_surrogate_def charCodeAt0_def)

lemma id_hash_main: "id_hash (ascii ''main.js'') = 688"
  by (simp add: id_hash_def ascii_def is_high_surrogate_def is_low_surrogate_def charCodeAt0_def)

text \<open>The lightness: the numbers of the formula are doubles, and 85 - 25 is 60.\<close>

lemma to_double_consts:
  "to_double 1 = Fin 1" "to_double 25 = Fin 25" "to_double 60 = Fin 60" "to_double 85 = Fin 85"
  "to_double 0 = Fin 0"
  by (simp_all add: double_eval)

lemma lightness_eq:
  "lightness n =
     jsadd (Fin 25) (jsmul (Fin 60) (jssub (Fin 1) (jsdiv (Fin (wastedBytes n)) (Fin (size_n n)))))"
  by (simp add: lightness_def to_double_consts)










text \<open>
  C10. \<^verbatim>\<open>updateColors\<close> on a viewer with a node on display returns normally and keeps
  the shape of the tree. Every node of the tree that has an element, size 0 and a
  wastedBytes that is not negative (as the data model has it) gets white text: its
  lightness is no finite number, NaN when wastedBytes is 0 and -Infinity otherwise,
  and the comparison with 50 is false. (A negative wastedBytes with size 0 is outside
  the data model; there the quotient is -Infinity and the lightness +Infinity.)
\<close>

theorem updateColors_zero_size:
  assumes "currentRootNode this = Some cur"
  shows "\<exists>cur'. TreemapViewer_updateColors this = Inr (this\<lparr>currentRootNode := Some cur'\<rparr>)
    \<and> positions cur' = positions cur
    \<and> (\<forall>p t st. subtree_at cur p = Some t \<and> dom (data t) = Some st \<and> size_n (data t) = 0
            \<and> 0 \<le> wastedBytes (data t) \<longrightarrow>
          lightness (data t) = (if wastedBytes (data t) = 0 then NaN else NInf)
          \<and> \<not> jsgt (lightness (data t)) (Fin 50)
          \<and> (\<exists>t'. subtree_at cur' p = Some t'
             \<and> data t' =
                 (data t)\<lparr>dom := Some (st\<lparr>backgroundColor :=
                     hsl (Fin (fst (colors ! palette_index (data t))))
                       (Fin (snd (colors ! palette_index (data t))))
                       (if wastedBytes (data t) = 0 then NaN else NInf),
                   color := ascii ''white''\<rparr>)\<rparr>))"
proof -
  let ?cur = "dfs_write cur recolor"
  have l: "lightness m = (if wastedBytes m = 0 then NaN else NInf)"
    if "size_n m = 0" "0 \<le> wastedBytes m" for m
    using that by (simp add: lightness_eq)
  have "subtree_at ?cur p = Some (dfs_write t recolor)
      \<and> data (dfs_write t recolor) =
            (data t)\<lparr>dom := Some (st\<lparr>backgroundColor :=
                     hsl (Fin (fst (colors ! palette_index (data t))))
                       (Fin (snd (colors ! palette_index (data t))))
                       (if wastedBytes (data t) = 0 then NaN else NInf),
                   color := ascii ''white''\<rparr>)\<rparr>"
    if "subtree_at cur p = Some t" "dom (data t) = Some st" "size_n (data t) = 0"
       "0 \<le> wastedBytes (data t)" for p t st
    using updateColors_nodes(3) [OF assms that(1)] l [OF that(3,4)] that(2)
    by (simp add: recolor_eq)
  with l updateColors_nodes(1,2) [OF assms] show ?thesis
    by (intro exI [of _ ?cur]) auto
qed

theorem updateColors_zero_size_witness:
  "\<exists>cur' t'. TreemapViewer_updateColors viewer_a = Inr (viewer_a\<lparr>currentRootNode := Some cur'\<rparr>)
     \<and> subtree_at cur' [0] = Some t'
     \<and> data t' = node_z\<lparr>dom := Some \<lparr>backgroundColor = ascii ''hsl(94, 60%, NaN%)'',
                                      color = ascii ''white''\<rparr>\<rparr>
     \<and> lightness node_z = NaN"
proof -
  let ?t = "Node node_a (Some [Node node_z None])"
  have v: "currentRootNode viewer_a = Some ?t" by (simp add: viewer_a_def)
  have s: "subtree_at ?t [0] = Some (Node node_z None)
      \<and> dom (data (Node node_z None)) = Some \<lparr>backgroundColor = [], color = []\<rparr>
      \<and> size_n (data (Node node_z None)) = 0 \<and> 0 \<le> wastedBytes (data (Node node_z None))"
    by (simp add: node_z_def)
  from updateColors_zero_size [OF v] obtain cur' where
    c: "TreemapViewer_updateColors viewer_a = Inr (viewer_a\<lparr>currentRootNode := Some cur'\<rparr>)"
    and n: "\<forall>p t st. subtree_at ?t p = Some t \<and> dom (data t) = Some st \<and> size_n (data t) = 0
            \<and> 0 \<le> wastedBytes (data t) \<longrightarrow>
          lightness (data t) = (if wastedBytes (data t) = 0 then NaN else NInf)
          \<and> \<not> jsgt (lightness (data t)) (Fin 50)
          \<and> (\<exists>t'. subtree_at cur' p = Some t'
             \<and> data t' =
                 (data t)\<lparr>dom := Some (st\<lparr>backgroundColor :=
                     hsl (Fin (fst (colors ! palette_index (data t))))
                       (Fin (snd (colors ! palette_index (data t))))
                       (if wastedBytes (data t) = 0 then NaN else NInf),
                   color := ascii ''white''\<rparr>)\<rparr>)"
    by blast
  from n s obtain t' where
    t: "lightness (data (Node node_z None)) =
          (if wastedBytes (data (Node node_z None)) = 0 then NaN else NInf)"
       "subtree_at cur' [0] = Some t'"
       "data t' =
          (data (Node node_z None))\<lparr>dom := Some (\<lparr>backgroundColor = [], color = []\<rparr>\<lparr>backgroundColor :=
               hsl (Fin (fst (colors ! palette_index (data (Node node_z None)))))
                 (Fin (snd (colors ! palette_index (data (Node node_z None)))))
                 (if wastedBytes (data (Node node_z None)) = 0 then NaN else NInf),
             color := ascii ''white''\<rparr>)\<rparr>"
    by blast
  have p: "palette_index node_z = 1" by (simp add: palette_index_def node_z_def colors_def)
  have w: "wastedBytes node_z = 0" by (simp add: node_z_def)
  have h: "hsl (Fin 94) (Fin 60) NaN = ascii ''hsl(94, 60%, NaN%)''"
    by (simp add: hsl_def nat_to_string_small digits.simps ascii_def)
  from t(3) have "data t' = node_z\<lparr>dom := Some \<lparr>backgroundColor = ascii ''hsl(94, 60%, NaN%)'',
                                      color = ascii ''white''\<rparr>\<rparr>"
    by (simp add: p w h colors_def)
  moreover from t(1) have "lightness node_z = NaN" by (simp add: w)
  ultimately show ?thesis using c t(2) by blast
qed

text \<open>
  Outside the data model: with size 0 and a negative wastedBytes the quotient is
  -Infinity, the lightness +Infinity, and the comparison with 50 is true.
\<close>

lemma lightness_zero_size_negative:
  "size_n n = 0 \<Longrightarrow> wastedBytes n < 0 \<Longrightarrow> lightness n = PInf \<and> jsgt (lightness n) (Fin 50)"
  by (simp add: lightness_eq)

text \<open>
  C9, as amended. For a node that has an \<^verbatim>\<open>idHash\<close>, as every node of a root's tree
  has after the constructor, the fallback changes nothing: \<^verbatim>\<open>idHash % 4 || 0\<close> and
  \<^verbatim>\<open>idHash % 4\<close> select the same palette entry. The fallback is not dead, though. A
  node without \<^verbatim>\<open>idHash\<close> has \<^verbatim>\<open>idHash % 4 = NaN\<close>, for which \<^verbatim>\<open>colors[NaN]\<close> is
  \<^verbatim>\<open>undefined\<close>, and the fallback selects entry 0; the aggregate that \<^verbatim>\<open>show\<close>
  builds for \<^verbatim>\<open>javascript\<close> is such a node.
\<close>

theorem color_fallback:
  "(idHash n = Some h \<longrightarrow>
      colors_at (jsor (jsrem (idHash_number n) (Fin (of_nat (length colors)))) (Fin 0)) =
        colors_at (jsrem (idHash_number n) (Fin (of_nat (length colors))))
      \<and> colors_at (jsrem (idHash_number n) (Fin (of_nat (length colors)))) = Some (colors ! (h mod 4)))
   \<and> (idHash n = None \<longrightarrow>
        jsrem (idHash_number n) (Fin (of_nat (length colors))) = NaN
        \<and> colors_at (jsrem (idHash_number n) (Fin (of_nat (length colors)))) = None
        \<and> colors_at (jsor (jsrem (idHash_number n) (Fin (of_nat (length colors)))) (Fin 0)) = Some (30, 60))
   \<and> idHash (data (aggregate url cs)) = None"
proof -
  have s: "colors_at (jsor (jsrem (idHash_number n) (Fin (of_nat (length colors)))) (Fin 0)) =
        colors_at (jsrem (idHash_number n) (Fin (of_nat (length colors))))
      \<and> colors_at (jsrem (idHash_number n) (Fin (of_nat (length colors)))) = Some (colors ! (h mod 4))"
    if "idHash n = Some h"
  proof -
    have "palette_index n = h mod 4"
      using that by (simp add: palette_index_def length_colors)
    then have i: "colors_at (jsor (jsrem (idHash_number n) (Fin (of_nat (length colors)))) (Fin 0))
        = Some (colors ! (h mod 4))"
      using palette_index_less [of n] by (simp add: idHash_index colors_at_index)
    have "jsor (jsrem (idHash_number n) (Fin (of_nat (length colors)))) (Fin 0) =
        jsrem (idHash_number n) (Fin (of_nat (length colors)))"
      using that by (auto simp: jsor_def truthy_def idHash_number_def length_colors)
    with i show ?thesis by simp
  qed
  have n: "jsrem (idHash_number n) (Fin (of_nat (length colors))) = NaN
        \<and> colors_at (jsrem (idHash_number n) (Fin (of_nat (length colors)))) = None
        \<and> colors_at (jsor (jsrem (idHash_number n) (Fin (of_nat (length colors)))) (Fin 0)) = Some (30, 60)"
    if "idHash n = None"
    using that by (simp add: idHash_number_def colors_at_def jsor_def truthy_def colors_def)
  have "idHash (data (aggregate url cs)) = None"
    by (simp add: aggregate_def)
  with s n show ?thesis by blast
qed

theorem color_fallback_witness:
  "colors_at (jsor (jsrem (idHash_number node_a) (Fin (of_nat (length colors)))) (Fin 0)) =
     colors_at (jsrem (idHash_number node_a) (Fin (of_nat (length colors))))
   \<and> colors_at (jsrem (idHash_number (data (aggregate url0 []))) (Fin (of_nat (length colors)))) = None
   \<and> colors_at (jsor (jsrem (idHash_number (data (aggregate url0 []))) (Fin (of_nat (length colors))))
        (Fin 0)) = Some (30, 60)"
  using color_fallback [of node_a 688 url0 "[]"] color_fallback [of "data (aggregate url0 [])" 0 url0 "[]"]
  by (simp add: node_a_def aggregate_def idHash_number_def colors_at_def jsor_def truthy_def colors_def)

lemma annotate0:
  "map (annotate keep_order) roots0 =
     [\<lparr>id_r = ascii ''a.js'', group_r = ascii ''javascript'',
       node = Node \<lparr>id_n = Some (ascii ''a.js''), size_n = 100, wastedBytes = 40,
                    originalId = Some (ascii ''a.js''), idHash = Some 364, dom = None\<rparr> (Some [])\<rparr>,
      \<lparr>id_r = ascii ''b.js'', group_r = ascii ''javascript'',
       node = Node \<lparr>id_n = Some (ascii ''b.js''), size_n = 200, wastedBytes = 50,
                    originalId = Some (ascii ''b.js''), idHash = Some 365, dom = None\<rparr> (Some [])\<rparr>]"
  by (simp add: roots0_def annotate_def keep_order_def leaf_def dfs_write_Node Let_def id_hash_def
      ascii_def is_high_surrogate_def is_low_surrogate_def charCodeAt0_def)

lemma nat_to_string_300: "nat_to_string 300 = ascii ''300''"
  by (simp add: digits.simps ascii_def nat_to_string_small)

lemma nat_to_string_30: "nat_to_string 30 = ascii ''30''"
  by (simp add: digits.simps ascii_def nat_to_string_small)

text \<open>
  The claim C9 as it was stated fails on the aggregate: after
  \<^verbatim>\<open>show('javascript')\<close> on the two roots above, with a layout that attaches an
  element to every node, the node on display has an element and no \<^verbatim>\<open>idHash\<close>;
  with the fallback its palette entry is \<open>(30, 60)\<close>, without it there is none.
\<close>

theorem color_fallback_counterexample:
  "shown (TreemapViewer_show attach_all (TreemapViewer keep_order url0 roots0) (ascii ''javascript''))
     = Some aggregate0
   \<and> dom aggregate0 \<noteq> None
   \<and> colors_at (jsor (jsrem (idHash_number aggregate0) (Fin (of_nat (length colors)))) (Fin 0))
       = Some (30, 60)
   \<and> colors_at (jsrem (idHash_number aggregate0) (Fin (of_nat (length colors)))) = None"
proof -
  let ?v = "TreemapViewer keep_order url0 roots0"
  let ?leaf_a = "Node \<lparr>id_n = Some (ascii ''a.js''), size_n = 100, wastedBytes = 40,
                    originalId = Some (ascii ''a.js''), idHash = Some 364, dom = None\<rparr> (Some [])"
  let ?leaf_b = "Node \<lparr>id_n = Some (ascii ''b.js''), size_n = 200, wastedBytes = 50,
                    originalId = Some (ascii ''b.js''), idHash = Some 365, dom = None\<rparr> (Some [])"
  have sel: "show_select ?v (ascii ''javascript'') = Inr (aggregate url0 [?leaf_a, ?leaf_b])"
    by (simp add: show_select_def TreemapViewer_def annotate0)
  have d: "data (attach_all (setTitle (JSON_clone (aggregate url0 [?leaf_a, ?leaf_b])))) =
      \<lparr>id_n = Some (ascii ''https://x'' @ bullet @ ascii ''300'' @ bullet @ ascii ''30''),
       size_n = 300, wastedBytes = 90, originalId = Some (ascii ''https://x''), idHash = None,
       dom = Some \<lparr>backgroundColor = [], color = []\<rparr>\<rparr>"
    by (simp add: attach_all_def aggregate_def setTitle_def dfs_write_Node setTitle_fn_eq url0_def
        interpolate_def nat_to_string_300 nat_to_string_30 double_eval)
  have u: "updateColors_fn (data (attach_all (setTitle (JSON_clone (aggregate url0 [?leaf_a, ?leaf_b])))))
      = Inr aggregate0"
    unfolding d
    by (simp add: updateColors_fn_eq palette_index_def colors_def lightness_def aggregate0_def hsl_def
        nat_to_string_small digits.simps ascii_def double_eval)
  have r: "shown (TreemapViewer_updateColors w) = Some n"
    if "currentRootNode w = Some t" "updateColors_fn (data t) = Inr n" for w t n
    using that by (simp add: updateColors_viewer shown_def dfs_write_data recolor_def updateColors_step_def)
  have "shown (TreemapViewer_show attach_all ?v (ascii ''javascript'')) = Some aggregate0"
    by (simp add: TreemapViewer_show_def sel TreemapViewer_render_def r [OF _ u])
  moreover have "dom aggregate0 \<noteq> None"
    by (simp add: aggregate0_def)
  moreover have "colors_at (jsor (jsrem (idHash_number aggregate0) (Fin (of_nat (length colors)))) (Fin 0))
       = Some (30, 60)"
    by (simp add: aggregate0_def idHash_number_def colors_at_def jsor_def truthy_def colors_def)
  moreover have "colors_at (jsrem (idHash_number aggregate0) (Fin (of_nat (length colors)))) = None"
    by (simp add: aggregate0_def idHash_number_def colors_at_def)
  ultimately show ?thesis by blast
qed

subsection \<open>The constructor\<close>

lemma foldl_add_nat:
  "foldl (\<lambda>acc ch. acc + g ch) a xs = a + sum_list (map g xs)" for a :: nat
  by (induction xs arbitrary: a) simp_all

lemma id_hash_sum: "id_hash i = sum_list (map charCodeAt0 (spread i))"
  by (simp add: id_hash_def foldl_add_nat)

lemma spread_no_surrogate:
  "\<forall>u \<in> set i. \<not> is_high_surrogate u \<Longrightarrow> spread i = map (\<lambda>u. (u, [])) i"
  by (induction i rule: spread.induct) simp_all

lemma annotate_id: "id_r (annotate wsort r) = id_r r"
  by (simp add: annotate_def Let_def)

lemma annotate_idHash:
  assumes "\<And>t. set (map data (preorder (wsort t))) \<subseteq> set (map data (preorder t))"
    and "n \<in> set (preorder (node (annotate wsort r)))"
  shows "idHash (data n) = Some (id_hash (id_r r))"
proof -
  let ?n2 = "dfs_write (dfs_write (node r) (\<lambda>n. n\<lparr>originalId := id_n n\<rparr>))
               (\<lambda>n. n\<lparr>idHash := Some (id_hash (id_r r))\<rparr>)"
  have "node (annotate wsort r) = wsort ?n2"
    by (simp add: annotate_def Let_def)
  with assms(2) have "data n \<in> set (map data (preorder (wsort ?n2)))"
    by simp
  with assms(1) have "data n \<in> set (map data (preorder ?n2))"
    by blast
  then show ?thesis
    by (auto simp: preorder_write(1))
qed

text \<open>
  C5. After the constructor, every node of the tree of every root has as \<^verbatim>\<open>idHash\<close>
  the hash of that root's id: the sum, over the characters that the spread of the id
  yields, of \<^verbatim>\<open>charCodeAt(0)\<close> (for an id without surrogate pairs, the sum of its
  code units). So the hash is the same for all nodes under a root and is a function of
  the id string alone: the constructor keeps the ids of the roots, \<^verbatim>\<open>main.js\<close> has the
  hash 688, and two ids with the same sum, such as \<^verbatim>\<open>ab\<close> and \<^verbatim>\<open>ba\<close>, have the same
  hash. \<^verbatim>\<open>webtreemap.sort\<close> is a parameter that reorders: it puts no node into a tree
  that was not in it.
\<close>

theorem idHash_per_root:
  assumes "\<And>t. set (map data (preorder (wsort t))) \<subseteq> set (map data (preorder t))"
  shows "(\<forall>r \<in> set (rootNodes (TreemapViewer wsort url rs)).
            \<forall>n \<in> set (preorder (node r)). idHash (data n) = Some (id_hash (id_r r)))
    \<and> map id_r (rootNodes (TreemapViewer wsort url rs)) = map id_r rs
    \<and> id_hash i = sum_list (map charCodeAt0 (spread i))
    \<and> ((\<forall>u \<in> set i. \<not> is_high_surrogate u) \<longrightarrow> id_hash i = sum_list (map unat i))
    \<and> id_hash (ascii ''main.js'') = 688
    \<and> id_hash (ascii ''ab'') = id_hash (ascii ''ba'')"
proof -
  have a: "\<forall>r \<in> set (rootNodes (TreemapViewer wsort url rs)).
            \<forall>n \<in> set (preorder (node r)). idHash (data n) = Some (id_hash (id_r r))"
    using annotate_idHash [OF assms] by (auto simp: TreemapViewer_def annotate_id)
  have b: "map id_r (rootNodes (TreemapViewer wsort url rs)) = map id_r rs"
    by (simp add: TreemapViewer_def annotate_id comp_def)
  have c: "(\<forall>u \<in> set i. \<not> is_high_surrogate u) \<longrightarrow> id_hash i = sum_list (map unat i)"
    by (simp add: id_hash_sum spread_no_surrogate comp_def charCodeAt0_def)
  have d: "id_hash (ascii ''main.js'') = 688"
    by (simp add: id_hash_def ascii_def is_high_surrogate_def is_low_surrogate_def charCodeAt0_def)
  have e: "id_hash (ascii ''ab'') = id_hash (ascii ''ba'')"
    by (simp add: id_hash_def ascii_def is_high_surrogate_def is_low_surrogate_def charCodeAt0_def)
  from a b c d e id_hash_sum show ?thesis by blast
qed

theorem idHash_per_root_witness:
  "map (\<lambda>r. map (\<lambda>n. idHash (data n)) (preorder (node r)))
     (rootNodes (TreemapViewer keep_order url0 roots0)) = [[Some 364], [Some 365]]
   \<and> id_hash (ascii ''a.js'') = 364 \<and> id_hash (ascii ''b.js'') = 365"
proof -
  have k: "set (map data (preorder (keep_order t))) \<subseteq> set (map data (preorder t))" for t
    by (simp add: keep_order_def)
  have r: "rootNodes (TreemapViewer keep_order url0 roots0) = map (annotate keep_order) roots0"
    by (simp add: TreemapViewer_def)
  have h: "id_hash (ascii ''a.js'') = 364" "id_hash (ascii ''b.js'') = 365"
    by (simp_all add: id_hash_def ascii_def is_high_surrogate_def is_low_surrogate_def charCodeAt0_def)
  from idHash_per_root [OF k, of url0 roots0, THEN conjunct1] show ?thesis
    by (simp add: r annotate0 h)
qed

subsection \<open>The message handler\<close>


text \<open>
  A message of the opener whose data is \<^verbatim>\<open>null\<close> or \<^verbatim>\<open>undefined\<close> has no payload to
  take fields from; there the destructuring raises a TypeError, and the page stays as
  it was.
\<close>

lemma on_message_no_data:
  "source e = opener pg \<Longrightarrow> payload_of e = None \<Longrightarrow> on_message wsort layout pg e = (pg, Some TypeError)"
  by (simp add: on_message_def)



subsection \<open>The store\<close>

lemma parse_frame:
  "m \<le> length h \<Longrightarrow> closed_from m h \<Longrightarrow>
     take (length h) (snd (JSON_parse t h)) = h \<and> length h \<le> fst (JSON_parse t h)
     \<and> fst (JSON_parse t h) < length (snd (JSON_parse t h)) \<and> closed_from m (snd (JSON_parse t h))"
  "m \<le> length h \<Longrightarrow> closed_from m h \<Longrightarrow>
     take (length h) (snd (JSON_parse_list ts h)) = h \<and> (\<forall>a \<in> set (fst (JSON_parse_list ts h)). length h \<le> a)
     \<and> length h \<le> length (snd (JSON_parse_list ts h)) \<and> closed_from m (snd (JSON_parse_list ts h))"
proof (induction t h and ts h rule: JSON_parse_JSON_parse_list.induct)
  case (1 f cs h)
  show ?case
  proof (cases cs)
    case None
    with "1.prems" show ?thesis
      by (auto simp: closed_from_def nth_append)
  next
    case (Some ts)
    obtain as h1 where p: "JSON_parse_list ts h = (as, h1)" by (cases "JSON_parse_list ts h")
    from "1.IH" [OF Some "1.prems"] p
    have ih: "take (length h) h1 = h" "\<forall>a \<in> set as. length h \<le> a" "length h \<le> length h1"
      "closed_from m h1" by simp_all
    have "\<forall>a \<in> set as. m \<le> a"
      using ih(2) "1.prems"(1) by auto
    then have "closed_from m (h1 @ [\<lparr>o_data = f, o_children = Some as\<rparr>])"
      using ih(4) by (auto simp: closed_from_def nth_append)
    with ih Some p show ?thesis by simp
  qed
next
  case (2 h)
  then show ?case by simp
next
  case (3 t ts h)
  obtain a h1 where p1: "JSON_parse t h = (a, h1)" by (cases "JSON_parse t h")
  obtain as h2 where p2: "JSON_parse_list ts h1 = (as, h2)" by (cases "JSON_parse_list ts h1")
  from "3.IH"(1) [OF "3.prems"] p1
  have ih1: "take (length h) h1 = h" "length h \<le> a" "a < length h1" "closed_from m h1" by simp_all
  then have m1: "m \<le> length h1" using "3.prems"(1) by simp
  from "3.IH"(2) [OF p1 [symmetric] m1 ih1(4)] p2
  have ih2: "take (length h1) h2 = h1" "\<forall>a \<in> set as. length h1 \<le> a" "length h1 \<le> length h2"
    "closed_from m h2" by simp_all
  have "take (length h) (take (length h1) h2) = take (length h) h2"
    using ih1(2,3) by (simp add: min_def)
  with ih1(1) ih2(1) have "take (length h) h2 = h" by simp
  with ih1 ih2 p1 p2 show ?case by auto
qed


lemma lookup_Some: "lookup h a = Some ob \<longleftrightarrow> a < length h \<and> ob = h ! a"
  by (auto simp: lookup_def)

lemma closed_from_update:
  assumes "closed_from m h" and "b < length h"
    and "\<And>as a. o_children ob = Some as \<Longrightarrow> a \<in> set as \<Longrightarrow> m \<le> a"
  shows "closed_from m (h[b := ob])"
  unfolding closed_from_def
proof (intro allI impI)
  fix b' as a
  assume a: "m \<le> b' \<and> b' < length (h[b := ob]) \<and> o_children (h[b := ob] ! b') = Some as \<and> a \<in> set as"
  show "m \<le> a"
  proof (cases "b' = b")
    case True
    with a assms(2) have "o_children ob = Some as" by simp
    with a assms(3) show ?thesis by blast
  next
    case False
    with a have "m \<le> b' \<and> b' < length h \<and> o_children (h ! b') = Some as \<and> a \<in> set as" by simp
    with assms(1) show ?thesis unfolding closed_from_def by blast
  qed
qed

lemma closed_from_append:
  assumes "closed_from m h"
    and "\<And>as a. o_children ob = Some as \<Longrightarrow> a \<in> set as \<Longrightarrow> m \<le> a"
  shows "closed_from m (h @ [ob])"
  unfolding closed_from_def
proof (intro allI impI)
  fix b' as a
  assume a: "m \<le> b' \<and> b' < length (h @ [ob]) \<and> o_children ((h @ [ob]) ! b') = Some as \<and> a \<in> set as"
  show "m \<le> a"
  proof (cases "b' < length h")
    case True
    with a have "m \<le> b' \<and> b' < length h \<and> o_children (h ! b') = Some as \<and> a \<in> set as"
      by (simp add: nth_append)
    with assms(1) show ?thesis unfolding closed_from_def by blast
  next
    case False
    with a have "b' = length h" by simp
    with a have "o_children ob = Some as" by simp
    with a assms(2) show ?thesis by blast
  qed
qed

lemma closed_from_children:
  "closed_from m h \<Longrightarrow> m \<le> b \<Longrightarrow> b < length h \<Longrightarrow> o_children (h ! b) = Some as \<Longrightarrow> a \<in> set as
    \<Longrightarrow> m \<le> a"
  unfolding closed_from_def by blast

lemma dfs_heap_frame:
  "m \<le> a \<Longrightarrow> closed_from m h \<Longrightarrow>
     take m (snd (dfs_heap k h a fn)) = take m h \<and> length (snd (dfs_heap k h a fn)) = length h
     \<and> closed_from m (snd (dfs_heap k h a fn))"
  "\<forall>a \<in> set as. m \<le> a \<Longrightarrow> closed_from m h \<Longrightarrow>
     take m (snd (dfs_heap_list k h as fn)) = take m h \<and> length (snd (dfs_heap_list k h as fn)) = length h
     \<and> closed_from m (snd (dfs_heap_list k h as fn))"
proof (induction k h a fn and k h as fn rule: dfs_heap_dfs_heap_list.induct)
  case (1 h a fn)
  then show ?case by simp
next
  case (2 k h a fn)
  show ?case
  proof (cases "lookup h a")
    case None
    then show ?thesis using "2.prems" by simp
  next
    case (Some ob)
    then have a: "a < length h" "ob = h ! a" by (simp_all add: lookup_Some)
    let ?h1 = "h[a := ob\<lparr>o_data := fn (o_data ob)\<rparr>]"
    have t: "take m ?h1 = take m h" using "2.prems"(1) by simp
    have c: "closed_from m ?h1"
      using "2.prems" a closed_from_children [of m h a]
      by (intro closed_from_update) auto
    show ?thesis
    proof (cases "o_children ob")
      case None
      with Some t c show ?thesis by simp
    next
      case (Some as)
      have "\<forall>x \<in> set as. m \<le> x"
        using closed_from_children [OF "2.prems"(2,1) a(1)] Some a(2) by blast
      from "2.IH" [OF \<open>lookup h a = Some ob\<close> refl Some this c] t Some \<open>lookup h a = Some ob\<close>
      show ?thesis by simp
    qed
  qed
next
  case (3 k h fn)
  then show ?case by simp
next
  case (4 k h a as fn)
  obtain e h1 where d: "dfs_heap k h a fn = (e, h1)" by (cases "dfs_heap k h a fn")
  from "4.IH"(1) "4.prems" d
  have ih1: "take m h1 = take m h" "length h1 = length h" "closed_from m h1" by simp_all
  show ?case
  proof (cases e)
    case (Some err)
    with d ih1 show ?thesis by simp
  next
    case None
    from "4.IH"(2) [OF d [symmetric] None] "4.prems"(1) ih1(3)
    have "take m (snd (dfs_heap_list k h1 as fn)) = take m h1
      \<and> length (snd (dfs_heap_list k h1 as fn)) = length h1
      \<and> closed_from m (snd (dfs_heap_list k h1 as fn))" by simp
    with d None ih1 show ?thesis by simp
  qed
qed

lemma reach_closed:
  "b \<in> reach h c \<Longrightarrow> closed_from m h \<Longrightarrow> m \<le> c \<Longrightarrow> m \<le> b"
  by (induction rule: reach.induct) (auto simp: lookup_Some dest: closed_from_children)

lemma known_closed:
  "known c h0 h b \<Longrightarrow> closed_from m h \<Longrightarrow> m \<le> c \<Longrightarrow> m \<le> length h0 \<Longrightarrow> m \<le> b"
  unfolding known_def using reach_closed by fastforce

lemma lib_steps_frame:
  "lib_steps c h0 h \<Longrightarrow> closed_from m h0 \<Longrightarrow> m \<le> c \<Longrightarrow> m \<le> length h0 \<Longrightarrow>
     closed_from m h \<and> take m h = take m h0 \<and> length h0 \<le> length h"
proof (induction rule: lib_steps.induct)
  case stay
  then show ?case by simp
next
  case (store h b ob)
  then have ih: "closed_from m h" "take m h = take m h0" "length h0 \<le> length h" by simp_all
  have "m \<le> b" using known_closed [OF store.hyps(3) ih(1) store.prems(2,3)] .
  moreover have "closed_from m (h[b := ob])"
    using store.hyps(2,4) known_closed [OF _ ih(1) store.prems(2,3)] ih(1)
    by (intro closed_from_update) auto
  ultimately show ?case using ih by simp
next
  case (fresh h ob)
  then have ih: "closed_from m h" "take m h = take m h0" "length h0 \<le> length h" by simp_all
  have "closed_from m (h @ [ob])"
    using fresh.hyps(2) known_closed [OF _ ih(1) fresh.prems(2,3)] ih(1)
    by (intro closed_from_append) auto
  moreover have "m \<le> length h" using ih(3) fresh.prems(3) by simp
  ultimately show ?case using ih by simp
qed

lemma cells_nonempty: "cells lo t \<noteq> []"
  by (cases t) (simp split: option.splits)

lemma parse_cells:
  "JSON_parse t h = (length h + length (cells (length h) t) - 1, h @ cells (length h) t)"
  "JSON_parse_list ts h = (addrs (length h) ts, h @ cells_list (length h) ts)"
  by (induction t h and ts h rule: JSON_parse_JSON_parse_list.induct)
     (auto split: option.splits)


lemma cells_length:
  "length (cells lo t) = length (preorder t)"
  "length (cells_list lo ts) = length (preorder_children ts)"
  "length (addrs lo ts) = length ts"
  by (induction lo t and lo ts and lo ts rule: cells_cells_list_addrs.induct)
     (auto split: option.splits)

lemma preorder_write_length:
  "length (preorder (dfs_write t g)) = length (preorder t)"
  using preorder_write(1) [of t g, THEN arg_cong, of length] by simp

lemma addrs_write:
  "addrs lo (map (\<lambda>c. dfs_write c g) ts) = addrs lo ts"
  by (induction ts arbitrary: lo) (simp_all add: cells_length preorder_write_length)

lemma dfs_heap_cells:
  "length (preorder t) \<le> k \<Longrightarrow>
     dfs_heap k (pre @ cells (length pre) t @ ext) (length pre + length (preorder t) - 1) fn =
       (None, pre @ cells (length pre) (dfs_write t fn) @ ext)"
  "length (preorder_children ts) \<le> k \<Longrightarrow>
     dfs_heap_list k (pre @ cells_list (length pre) ts @ ext) (addrs (length pre) ts) fn =
       (None, pre @ cells_list (length pre) (map (\<lambda>c. dfs_write c fn) ts) @ ext)"
proof (induction t and ts arbitrary: k pre ext and k pre ext rule: preorder_preorder_children.induct)
  case (1 f cs)
  then obtain k' where k: "k = Suc k'" by (cases k) auto
  show ?case
  proof (cases cs)
    case None
    then show ?thesis
      by (simp add: k lookup_def nth_append dfs_write_Node list_update_append)
  next
    case (Some ts)
    let ?a = "length pre + length (preorder_children ts)"
    let ?ob = "\<lparr>o_data = f, o_children = Some (addrs (length pre) ts)\<rparr>"
    let ?h = "pre @ cells (length pre) (Node f cs) @ ext"
    have h: "?h = (pre @ cells_list (length pre) ts) @ ?ob # ext"
      using Some by simp
    have l: "length (pre @ cells_list (length pre) ts) = ?a"
      by (simp add: cells_length)
    have lk: "lookup ?h ?a = Some ?ob"
      unfolding h lookup_def using l by (simp add: nth_append)
    have up: "?h[?a := ?ob\<lparr>o_data := fn f\<rparr>] =
        pre @ cells_list (length pre) ts @ (\<lparr>o_data = fn f, o_children = Some (addrs (length pre) ts)\<rparr> # ext)"
      unfolding h using l by (simp add: list_update_append)
    have "length (preorder_children ts) \<le> k'"
      using "1.prems" Some k by simp
    from "1.IH" [OF Some this, where pre = pre
        and ext = "\<lparr>o_data = fn f, o_children = Some (addrs (length pre) ts)\<rparr> # ext"]
    have "dfs_heap_list k' (?h[?a := ?ob\<lparr>o_data := fn f\<rparr>]) (addrs (length pre) ts) fn =
        (None, pre @ cells_list (length pre) (map (\<lambda>c. dfs_write c fn) ts)
               @ \<lparr>o_data = fn f, o_children = Some (addrs (length pre) ts)\<rparr> # ext)"
      unfolding up .
    moreover have "length pre + length (preorder (Node f cs)) - 1 = ?a"
      using Some by simp
    ultimately show ?thesis
      using lk Some by (simp add: k dfs_write_Node addrs_write)
  qed
next
  case 2
  show ?case by simp
next
  case (3 c cs)
  let ?n = "length (preorder c)"
  have n: "length (cells (length pre) c) = ?n" by (simp add: cells_length)
  have k1: "?n \<le> k" and k2: "length (preorder_children cs) \<le> k"
    using "3.prems" by simp_all
  have s1: "dfs_heap k (pre @ cells (length pre) c @ cells_list (length pre + ?n) cs @ ext)
      (length pre + ?n - 1) fn =
      (None, pre @ cells (length pre) (dfs_write c fn) @ cells_list (length pre + ?n) cs @ ext)"
    by (rule "3.IH"(1) [OF k1])
  let ?pre' = "pre @ cells (length pre) (dfs_write c fn)"
  have l': "length ?pre' = length pre + ?n"
    by (simp add: cells_length preorder_write_length)
  have s2: "dfs_heap_list k (?pre' @ cells_list (length ?pre') cs @ ext) (addrs (length ?pre') cs) fn =
      (None, ?pre' @ cells_list (length ?pre') (map (\<lambda>c. dfs_write c fn) cs) @ ext)"
    by (rule "3.IH"(2) [OF k2])
  from s1 s2 show ?case
    unfolding l' by (simp add: n cells_length preorder_write_length)
qed

lemma lookup_append: "lookup h a = Some ob \<Longrightarrow> lookup (h @ x) a = Some ob"
  by (auto simp: lookup_def nth_append split: if_splits)

lemma stringify_append:
  "JSON_stringify k h a = Inr t \<Longrightarrow> JSON_stringify k (h @ x) a = Inr t"
  "JSON_stringify_list k h as = Inr ts \<Longrightarrow> JSON_stringify_list k (h @ x) as = Inr ts"
proof (induction k h a and k h as arbitrary: t and ts rule: JSON_stringify_JSON_stringify_list.induct)
  case (1 h a)
  then show ?case by simp
next
  case (2 k h a)
  from "2.prems" obtain ob where ob: "lookup h a = Some ob"
    by (cases "lookup h a") auto
  show ?case
  proof (cases "o_children ob")
    case None
    with "2.prems" ob lookup_append [OF ob, of x] show ?thesis by simp
  next
    case (Some as)
    with "2.prems" ob obtain ts where ts: "JSON_stringify_list k h as = Inr ts"
      by (cases "JSON_stringify_list k h as") auto
    from "2.IH" [OF ob Some ts] have "JSON_stringify_list k (h @ x) as = Inr ts" .
    with "2.prems" ob Some ts lookup_append [OF ob, of x] show ?thesis by simp
  qed
next
  case (3 k h)
  then show ?case by simp
next
  case (4 k h a as)
  from "4.prems" obtain t where t: "JSON_stringify k h a = Inr t"
    by (cases "JSON_stringify k h a") auto
  with "4.prems" obtain ts' where ts': "JSON_stringify_list k h as = Inr ts'"
    by (cases "JSON_stringify_list k h as") auto
  from "4.IH"(1) [OF t] "4.IH"(2) [OF t ts'] "4.prems" t ts' show ?case by simp
qed

lemma stringify_lookup: "JSON_stringify k h a = Inr t \<Longrightarrow> lookup h a \<noteq> None"
  by (cases k) (auto split: option.splits)

lemma select_heap_frame:
  assumes "show_select_heap this h i = Inr (a, h1)"
  shows "take (length h) h1 = h \<and> length h \<le> length h1"
  using assms by (auto simp: show_select_heap_def Let_def split: if_splits option.splits)

lemma closed_from_length: "closed_from (length h) h"
  by (simp add: closed_from_def)

lemma show_heap_separate:
  assumes "show_heap this h i = (err, this', h')"
  shows "rootNodes this' = rootNodes this \<and> take (length h) h' = h
    \<and> (err = None \<longrightarrow>
          (\<exists>c. currentRootNode this' = Some c \<and> c < length h'
             \<and> (\<forall>b \<in> reach h' c. length h \<le> b)
             \<and> (\<forall>h''. lib_steps c h' h'' \<longrightarrow> take (length h) h'' = h)))"
proof (cases "show_select_heap this h i")
  case (Inl e)
  with assms show ?thesis by (auto simp: show_heap_def)
next
  case (Inr p)
  obtain a h1 where p: "p = (a, h1)" by (cases p)
  from select_heap_frame [OF Inr [unfolded p]]
  have h1: "take (length h) h1 = h" "length h \<le> length h1" by simp_all
  show ?thesis
  proof (cases "JSON_stringify (length h1) h1 a")
    case (Inl e)
    with assms Inr p h1 show ?thesis by (auto simp: show_heap_def)
  next
    case (Inr t)
    let ?c = "fst (JSON_parse t h1)" and ?h2 = "snd (JSON_parse t h1)"
    let ?m = "length h1"
    from parse_frame(1) [OF le_refl closed_from_length, of h1 t]
    have p2: "take ?m ?h2 = h1" "?m \<le> ?c" "?c < length ?h2" "closed_from ?m ?h2" by simp_all
    let ?h3 = "snd (dfs_heap (length ?h2) ?h2 ?c setTitle_fn)"
    from dfs_heap_frame(1) [OF p2(2) p2(4), of "length ?h2" setTitle_fn]
    have p3: "take ?m ?h3 = take ?m ?h2" "length ?h3 = length ?h2" "closed_from ?m ?h3" by simp_all
    have res: "err = fst (dfs_heap (length ?h2) ?h2 ?c setTitle_fn)" "h' = ?h3"
      "this' = this\<lparr>currentRootNode := Some ?c\<rparr>"
      using assms \<open>show_select_heap this h i = Inr p\<close> p Inr
      by (simp_all add: show_heap_def split_beta)
    have pre: "take (length h) x = h" if "take ?m x = h1" for x
    proof -
      have "take (length h) (take ?m x) = take (length h) x"
        using h1(2) by (simp add: min_def)
      with that h1(1) show ?thesis by simp
    qed
    have a: "take (length h) h' = h"
      using pre [of ?h3] p3(1) p2(1) res(2) by simp
    have b: "\<forall>b \<in> reach h' ?c. length h \<le> b"
      using reach_closed [OF _ p3(3) p2(2)] h1(2) res(2) by fastforce
    have c: "\<forall>h''. lib_steps ?c h' h'' \<longrightarrow> take (length h) h'' = h"
    proof (intro allI impI)
      fix h''
      assume "lib_steps ?c h' h''"
      then have "lib_steps ?c ?h3 h''" using res(2) by simp
      from lib_steps_frame [OF this p3(3) p2(2)] p3(2) p2(2,3)
      have "take ?m h'' = take ?m ?h3" by simp
      with p3(1) p2(1) have "take ?m h'' = h1" by simp
      then show "take (length h) h'' = h" by (rule pre)
    qed
    have d: "?c < length h'" using p2(3) p3(2) res(2) by simp
    from a b c d res(3) show ?thesis by simp
  qed
qed

lemma those_lookup:
  "\<forall>a \<in> set cs. lookup h a \<noteq> None \<Longrightarrow> \<exists>obs. those (map (lookup h) cs) = Some obs"
  by (induction cs) auto

lemma stringify_list_all:
  "\<forall>a \<in> set cs. \<exists>t. JSON_stringify k h a = Inr t \<Longrightarrow> \<exists>ts. JSON_stringify_list k (h @ x) cs = Inr ts"
proof (induction cs)
  case Nil
  then show ?case by simp
next
  case (Cons a cs)
  then obtain t ts where "JSON_stringify k h a = Inr t" "JSON_stringify_list k (h @ x) cs = Inr ts"
    by auto
  with stringify_append(1) [of k h a t x] show ?case by simp
qed

lemma select_heap_stringify:
  assumes "i = ascii ''javascript'' \<or> (\<exists>r \<in> set (rootNodes this). id_r r = i)"
    and "\<forall>r \<in> set (rootNodes this). \<exists>t. JSON_stringify (length h) h (node r) = Inr t"
  shows "\<exists>a h1 t. show_select_heap this h i = Inr (a, h1) \<and> JSON_stringify (length h1) h1 a = Inr t"
proof (cases "i = ascii ''javascript''")
  case True
  let ?cs = "map node (filter (\<lambda>rootNode. group_r rootNode = i) (rootNodes this))"
  have all: "\<forall>a \<in> set ?cs. \<exists>t. JSON_stringify (length h) h a = Inr t"
    using assms(2) by auto
  then have "\<forall>a \<in> set ?cs. lookup h a \<noteq> None"
    using stringify_lookup by blast
  from those_lookup [OF this] obtain obs where obs: "those (map (lookup h) ?cs) = Some obs" ..
  let ?agg = "\<lparr>o_data =
                  \<lparr>id_n = None,
                   size_n = foldl (\<lambda>acc cur. size_n (o_data cur) + acc) 0 obs,
                   wastedBytes = foldl (\<lambda>acc cur. wastedBytes (o_data cur) + acc) 0 obs,
                   originalId = Some (documentUrl this),
                   idHash = None,
                   dom = None\<rparr>,
                o_children = Some ?cs\<rparr>"
  have sel: "show_select_heap this h i = Inr (length h, h @ [?agg])"
    using True obs by (simp add: show_select_heap_def Let_def)
  from stringify_list_all [OF all, of "[?agg]"]
  obtain ts where "JSON_stringify_list (length h) (h @ [?agg]) ?cs = Inr ts" ..
  then have "\<exists>t. JSON_stringify (length (h @ [?agg])) (h @ [?agg]) (length h) = Inr t"
    by (simp add: lookup_def)
  with sel show ?thesis by blast
next
  case False
  with assms(1) obtain r where r: "find (\<lambda>rootNode. id_r rootNode = i) (rootNodes this) = Some r"
    by (cases "find (\<lambda>rootNode. id_r rootNode = i) (rootNodes this)") (auto simp: find_None_iff)
  then have "r \<in> set (rootNodes this)"
    by (auto simp: find_Some_iff)
  with assms(2) obtain t where "JSON_stringify (length h) h (node r) = Inr t" by blast
  with False r show ?thesis by (simp add: show_select_heap_def)
qed

lemma show_heap_succeeds:
  assumes "i = ascii ''javascript'' \<or> (\<exists>r \<in> set (rootNodes this). id_r r = i)"
    and "\<forall>r \<in> set (rootNodes this). \<exists>t. JSON_stringify (length h) h (node r) = Inr t"
  shows "fst (show_heap this h i) = None"
proof -
  from select_heap_stringify [OF assms] obtain a h1 t where
    sel: "show_select_heap this h i = Inr (a, h1)" and str: "JSON_stringify (length h1) h1 a = Inr t"
    by blast
  have "dfs_heap (length h1 + length (preorder t)) (h1 @ cells (length h1) t @ [])
      (length h1 + length (preorder t) - 1) setTitle_fn =
      (None, h1 @ cells (length h1) (dfs_write t setTitle_fn) @ [])"
    by (rule dfs_heap_cells(1)) simp
  then show ?thesis
    using sel str by (simp add: show_heap_def parse_cells(1) cells_length)
qed

subsection \<open>The store and the trees\<close>

lemma stringify_cells:
  "length (preorder t) \<le> k \<Longrightarrow>
     JSON_stringify k (pre @ cells (length pre) t @ ext) (length pre + length (preorder t) - 1)
       = Inr (JSON_clone t)"
  "length (preorder_children ts) \<le> k \<Longrightarrow>
     JSON_stringify_list k (pre @ cells_list (length pre) ts @ ext) (addrs (length pre) ts)
       = Inr (map JSON_clone ts)"
proof (induction t and ts arbitrary: k pre ext and k pre ext rule: preorder_preorder_children.induct)
  case (1 f cs)
  then obtain k' where k: "k = Suc k'" by (cases k) auto
  show ?case
  proof (cases cs)
    case None
    then show ?thesis
      by (simp add: k lookup_def nth_append)
  next
    case (Some ts)
    let ?a = "length pre + length (preorder_children ts)"
    let ?ob = "\<lparr>o_data = f, o_children = Some (addrs (length pre) ts)\<rparr>"
    let ?h = "pre @ cells (length pre) (Node f cs) @ ext"
    have h: "?h = (pre @ cells_list (length pre) ts) @ ?ob # ext"
      using Some by simp
    have l: "length (pre @ cells_list (length pre) ts) = ?a"
      by (simp add: cells_length)
    have lk: "lookup ?h ?a = Some ?ob"
      unfolding h lookup_def using l by (simp add: nth_append)
    have "length (preorder_children ts) \<le> k'"
      using "1.prems" Some k by simp
    from "1.IH" [OF Some this, where pre = pre and ext = "?ob # ext"]
    have "JSON_stringify_list k' ?h (addrs (length pre) ts) = Inr (map JSON_clone ts)"
      using Some by simp
    moreover have "length pre + length (preorder (Node f cs)) - 1 = ?a"
      using Some by simp
    ultimately show ?thesis
      using lk Some by (simp add: k)
  qed
next
  case 2
  show ?case by simp
next
  case (3 c cs)
  let ?n = "length (preorder c)"
  have n: "length (cells (length pre) c) = ?n" by (simp add: cells_length)
  have k1: "?n \<le> k" and k2: "length (preorder_children cs) \<le> k"
    using "3.prems" by simp_all
  have s1: "JSON_stringify k (pre @ cells (length pre) c @ cells_list (length pre + ?n) cs @ ext)
      (length pre + ?n - 1) = Inr (JSON_clone c)"
    by (rule "3.IH"(1) [OF k1])
  let ?pre' = "pre @ cells (length pre) c"
  have l': "length ?pre' = length pre + ?n"
    by (simp add: cells_length)
  have s2: "JSON_stringify_list k (?pre' @ cells_list (length ?pre') cs @ ext) (addrs (length ?pre') cs)
      = Inr (map JSON_clone cs)"
    by (rule "3.IH"(2) [OF k2])
  from s1 s2 show ?case
    unfolding l' by (simp add: n)
qed

lemma stringify_clone_fixed:
  "JSON_stringify k h a = Inr t \<Longrightarrow> JSON_clone t = t"
  "JSON_stringify_list k h as = Inr ts \<Longrightarrow> map JSON_clone ts = ts"
proof (induction k h a and k h as arbitrary: t and ts rule: JSON_stringify_JSON_stringify_list.induct)
  case (1 h a)
  then show ?case by simp
next
  case (2 k h a)
  from "2.prems" obtain ob where ob: "lookup h a = Some ob"
    by (cases "lookup h a") auto
  show ?case
  proof (cases "o_children ob")
    case None
    with "2.prems" ob show ?thesis by auto
  next
    case (Some as)
    with "2.prems" ob obtain ts where ts: "JSON_stringify_list k h as = Inr ts"
      by (cases "JSON_stringify_list k h as") auto
    from "2.IH" [OF ob Some ts] "2.prems" ob Some ts show ?thesis by auto
  qed
next
  case (3 k h)
  then show ?case by simp
next
  case (4 k h a as)
  from "4.prems" obtain t where t: "JSON_stringify k h a = Inr t"
    by (cases "JSON_stringify k h a") auto
  with "4.prems" obtain ts' where ts': "JSON_stringify_list k h as = Inr ts'"
    by (cases "JSON_stringify_list k h as") auto
  from "4.IH"(1) [OF t] "4.IH"(2) [OF t ts'] "4.prems" t ts' show ?case by auto
qed

lemma JSON_clone_write:
  assumes "\<And>f. (g f)\<lparr>dom := None\<rparr> = g (f\<lparr>dom := None\<rparr>)"
  shows "JSON_clone (dfs_write t g) = dfs_write (JSON_clone t) g"
    and "map JSON_clone (map (\<lambda>c. dfs_write c g) ts) = map (\<lambda>c. dfs_write c g) (map JSON_clone ts)"
proof (induction t and ts rule: preorder_preorder_children.induct)
  case (1 f cs)
  then show ?case by (cases cs) (simp_all add: dfs_write_Node assms comp_def)
qed simp_all

lemma JSON_clone_setTitle: "JSON_clone (setTitle t) = setTitle (JSON_clone t)"
  unfolding setTitle_def by (rule JSON_clone_write(1)) (simp add: setTitle_fn_eq)

text \<open>
  What \<^verbatim>\<open>show\<close> leaves on the store: when the selected node is found and its graph
  reads as the tree \<open>t\<close>, \<^verbatim>\<open>show\<close> succeeds, \<^verbatim>\<open>currentRootNode\<close> is the last of the
  objects allocated for the copy, and the graph at it reads as \<open>setTitle t\<close>.
\<close>

lemma show_heap_result:
  assumes "show_select_heap this h i = Inr (a, h1)" and "JSON_stringify (length h1) h1 a = Inr t"
  shows "show_heap this h i =
      (None, this\<lparr>currentRootNode := Some (length h1 + length (preorder t) - 1)\<rparr>,
       h1 @ cells (length h1) (setTitle t))"
    and "JSON_stringify (length (h1 @ cells (length h1) (setTitle t))) (h1 @ cells (length h1) (setTitle t))
      (length h1 + length (preorder t) - 1) = Inr (setTitle t)"
proof -
  have "dfs_heap (length h1 + length (preorder t)) (h1 @ cells (length h1) t @ [])
      (length h1 + length (preorder t) - 1) setTitle_fn =
      (None, h1 @ cells (length h1) (dfs_write t setTitle_fn) @ [])"
    by (rule dfs_heap_cells(1)) simp
  then show "show_heap this h i =
      (None, this\<lparr>currentRootNode := Some (length h1 + length (preorder t) - 1)\<rparr>,
       h1 @ cells (length h1) (setTitle t))"
    using assms by (simp add: show_heap_def parse_cells(1) cells_length setTitle_def)
  have "JSON_stringify (length h1 + length (preorder (setTitle t)))
      (h1 @ cells (length h1) (setTitle t) @ []) (length h1 + length (preorder (setTitle t)) - 1)
      = Inr (JSON_clone (setTitle t))"
    by (rule stringify_cells(1)) simp
  moreover have "length (preorder (setTitle t)) = length (preorder t)"
    by (simp add: setTitle_def preorder_write_length)
  moreover have "JSON_clone (setTitle t) = setTitle t"
    using stringify_clone_fixed(1) [OF assms(2)] by (simp add: JSON_clone_setTitle)
  ultimately show "JSON_stringify (length (h1 @ cells (length h1) (setTitle t)))
      (h1 @ cells (length h1) (setTitle t)) (length h1 + length (preorder t) - 1) = Inr (setTitle t)"
    by (simp add: cells_length)
qed

lemma stringify_data:
  "JSON_stringify k h a = Inr t \<Longrightarrow> \<exists>ob. lookup h a = Some ob \<and> data t = (o_data ob)\<lparr>dom := None\<rparr>"
  by (cases k) (auto split: option.splits sum.splits)

lemma stringify_list_Cons:
  "JSON_stringify_list k h (a # as) = Inr ts \<longleftrightarrow>
     (\<exists>t ts'. ts = t # ts' \<and> JSON_stringify k h a = Inr t \<and> JSON_stringify_list k h as = Inr ts')"
  by (auto split: sum.splits)

lemma those_objs:
  "JSON_stringify_list k h cs = Inr ts \<Longrightarrow>
     \<exists>obs. those (map (lookup h) cs) = Some obs
       \<and> map (\<lambda>ob. size_n (o_data ob)) obs = map (\<lambda>t. size_n (data t)) ts
       \<and> map (\<lambda>ob. wastedBytes (o_data ob)) obs = map (\<lambda>t. wastedBytes (data t)) ts"
proof (induction cs arbitrary: ts)
  case Nil
  then show ?case by simp
next
  case (Cons a cs)
  from Cons.prems obtain t ts' where t: "ts = t # ts'" "JSON_stringify k h a = Inr t"
    "JSON_stringify_list k h cs = Inr ts'"
    unfolding stringify_list_Cons by blast
  from stringify_data [OF t(2)] obtain ob where ob: "lookup h a = Some ob"
    "data t = (o_data ob)\<lparr>dom := None\<rparr>" by blast
  from Cons.IH [OF t(3)] obtain obs where obs: "those (map (lookup h) cs) = Some obs"
    "map (\<lambda>ob. size_n (o_data ob)) obs = map (\<lambda>t. size_n (data t)) ts'"
    "map (\<lambda>ob. wastedBytes (o_data ob)) obs = map (\<lambda>t. wastedBytes (data t)) ts'" by blast
  show ?case
    using t(1) ob obs by simp
qed

lemma filtered_roots:
  assumes "list_all2 (\<lambda>r t. JSON_stringify k h (node r) = Inr t) rs ts"
  shows "JSON_stringify_list k h (map node (filter (\<lambda>r. group_r r = i) rs)) =
    Inr (map node (filter (\<lambda>r. group_r r = i)
           (map (\<lambda>(r, t). \<lparr>id_r = id_r r, group_r = group_r r, node = t\<rparr>) (zip rs ts))))"
  using assms by (induction rule: list_all2_induct) simp_all

lemma found_root:
  assumes "list_all2 (\<lambda>r t. JSON_stringify k h (node r) = Inr t) rs ts"
    and "find (\<lambda>r. id_r r = i)
           (map (\<lambda>(r, t). \<lparr>id_r = id_r r, group_r = group_r r, node = t\<rparr>) (zip rs ts)) = Some r'"
  shows "\<exists>r. find (\<lambda>r. id_r r = i) rs = Some r \<and> JSON_stringify k h (node r) = Inr (node r')"
  using assms by (induction rule: list_all2_induct) (auto split: if_splits)

lemma select_refines:
  assumes "list_all2 (\<lambda>r t. JSON_stringify (length h) h (node r) = Inr t) (rootNodes this) ts"
    and "show_select (tree_viewer this ts) i = Inr n"
  shows "\<exists>a h1. show_select_heap this h i = Inr (a, h1) \<and> JSON_stringify (length h1) h1 a = Inr n"
proof (cases "i = ascii ''javascript''")
  case True
  let ?cs = "map node (filter (\<lambda>rootNode. group_r rootNode = i) (rootNodes this))"
  let ?ts = "map node (filter (\<lambda>r. group_r r = i)
           (map (\<lambda>(r, t). \<lparr>id_r = id_r r, group_r = group_r r, node = t\<rparr>) (zip (rootNodes this) ts)))"
  have n: "n = aggregate (documentUrl this) ?ts"
    using assms(2) True by (simp add: show_select_def tree_viewer_def)
  have str: "JSON_stringify_list (length h) h ?cs = Inr ?ts"
    by (rule filtered_roots [OF assms(1)])
  from those_objs [OF str] obtain obs where obs: "those (map (lookup h) ?cs) = Some obs"
    "map (\<lambda>ob. size_n (o_data ob)) obs = map (\<lambda>t. size_n (data t)) ?ts"
    "map (\<lambda>ob. wastedBytes (o_data ob)) obs = map (\<lambda>t. wastedBytes (data t)) ?ts" by blast
  let ?agg = "\<lparr>o_data =
                  \<lparr>id_n = None,
                   size_n = foldl (\<lambda>acc cur. size_n (o_data cur) + acc) 0 obs,
                   wastedBytes = foldl (\<lambda>acc cur. wastedBytes (o_data cur) + acc) 0 obs,
                   originalId = Some (documentUrl this),
                   idHash = None,
                   dom = None\<rparr>,
                o_children = Some ?cs\<rparr>"
  have sel: "show_select_heap this h i = Inr (length h, h @ [?agg])"
    using True obs(1) by (simp add: show_select_heap_def Let_def)
  have sums: "foldl (\<lambda>acc cur. size_n (o_data cur) + acc) 0 obs =
      foldl (\<lambda>acc cur. size_n (data cur) + acc) 0 ?ts"
    "foldl (\<lambda>acc cur. wastedBytes (o_data cur) + acc) 0 obs =
      foldl (\<lambda>acc cur. wastedBytes (data cur) + acc) 0 ?ts"
    using obs(2,3) by (simp_all only: foldl_plus)
  have "JSON_stringify_list (length h) (h @ [?agg]) ?cs = Inr ?ts"
    by (rule stringify_append(2) [OF str])
  then have "JSON_stringify (length (h @ [?agg])) (h @ [?agg]) (length h) = Inr n"
    unfolding n aggregate_def using sums by (simp add: lookup_def)
  with sel show ?thesis by blast
next
  case False
  with assms(2) obtain r' where r': "find (\<lambda>r. id_r r = i) (rootNodes (tree_viewer this ts)) = Some r'"
    "n = node r'"
    by (auto simp: show_select_def split: option.splits)
  from found_root [OF assms(1), of i r'] r'(1)
  obtain r where "find (\<lambda>r. id_r r = i) (rootNodes this) = Some r"
    "JSON_stringify (length h) h (node r) = Inr (node r')"
    by (auto simp: tree_viewer_def)
  with False r'(2) show ?thesis by (simp add: show_select_heap_def)
qed

text \<open>
  \<^verbatim>\<open>show\<close> on the store and \<^verbatim>\<open>show\<close> on trees agree. Let the graphs of the roots read
  as the trees \<open>ts\<close>. If the selection picks the node \<open>n\<close> in the viewer over these
  trees, then \<^verbatim>\<open>show\<close> on the store succeeds and the graph at \<^verbatim>\<open>currentRootNode\<close>
  reads as \<open>setTitle (JSON_clone n)\<close>, the tree that \<open>TreemapViewer_show\<close> hands to the
  layout.
\<close>

lemma show_heap_refines:
  assumes "list_all2 (\<lambda>r t. JSON_stringify (length h) h (node r) = Inr t) (rootNodes this) ts"
    and "show_select (tree_viewer this ts) i = Inr n"
  shows "\<exists>c h'. show_heap this h i = (None, this\<lparr>currentRootNode := Some c\<rparr>, h')
    \<and> JSON_stringify (length h') h' c = Inr (setTitle (JSON_clone n))"
proof -
  from select_refines [OF assms] obtain a h1 where
    sel: "show_select_heap this h i = Inr (a, h1)" and str: "JSON_stringify (length h1) h1 a = Inr n"
    by blast
  have "JSON_clone n = n" by (rule stringify_clone_fixed(1) [OF str])
  with show_heap_result [OF sel str] show ?thesis by auto
qed

subsection \<open>show leaves rootNodes alone\<close>

text \<open>
  C7. Whatever the selection and whatever the outcome, \<^verbatim>\<open>show\<close> leaves the list
  \<^verbatim>\<open>rootNodes\<close> and every object that was in the store as they were: it only
  allocates. When it succeeds, \<^verbatim>\<open>currentRootNode\<close> is the copy that \<^verbatim>\<open>JSON.parse\<close>
  made before \<^verbatim>\<open>setTitle\<close> ran: no object reachable from it was in the store before,
  so the copy shares nothing with the trees of \<^verbatim>\<open>rootNodes\<close>, and whatever is done
  afterwards through this reference (writing into objects reachable from it or
  allocated since, allocating) still leaves every object of the old store as it was.
  The copy is a copy of the selected graph: when that graph reads as the tree \<open>t\<close>,
  \<^verbatim>\<open>show\<close> succeeds and the graph at \<^verbatim>\<open>currentRootNode\<close> reads as \<open>setTitle t\<close>. And
  \<^verbatim>\<open>show\<close> does succeed when the selection is \<^verbatim>\<open>javascript\<close> or the id of a root and
  the graph of every root is free of cycles, so that \<^verbatim>\<open>JSON.stringify\<close> reads it as a
  tree.
\<close>

theorem show_heap_frame:
  assumes "show_heap this h i = (err, this', h')"
  shows "rootNodes this' = rootNodes this \<and> take (length h) h' = h
    \<and> (err = None \<longrightarrow>
          (\<exists>c. currentRootNode this' = Some c \<and> c < length h'
             \<and> (\<forall>b \<in> reach h' c. length h \<le> b)
             \<and> (\<forall>h''. lib_steps c h' h'' \<longrightarrow> take (length h) h'' = h)))
    \<and> (\<forall>a h1 t. show_select_heap this h i = Inr (a, h1) \<and> JSON_stringify (length h1) h1 a = Inr t
          \<longrightarrow> err = None
            \<and> (\<exists>c. currentRootNode this' = Some c \<and> JSON_stringify (length h') h' c = Inr (setTitle t)))
    \<and> ((i = ascii ''javascript'' \<or> (\<exists>r \<in> set (rootNodes this). id_r r = i))
        \<and> (\<forall>r \<in> set (rootNodes this). \<exists>t. JSON_stringify (length h) h (node r) = Inr t)
        \<longrightarrow> err = None)"
proof -
  have "err = None
      \<and> (\<exists>c. currentRootNode this' = Some c \<and> JSON_stringify (length h') h' c = Inr (setTitle t))"
    if "show_select_heap this h i = Inr (a, h1)" and "JSON_stringify (length h1) h1 a = Inr t"
    for a h1 t
    using show_heap_result [OF that] assms by simp
  then show ?thesis
    using show_heap_separate [OF assms] show_heap_succeeds [of i this h] assms by simp
qed

lemma show_heap0:
  "show_heap viewer0 heap0 (ascii ''javascript'') =
     (None, viewer0\<lparr>currentRootNode := Some 5\<rparr>,
      heap0 @
      [\<lparr>o_data = \<lparr>id_n = None, size_n = 300, wastedBytes = 90, originalId = Some url0,
                  idHash = None, dom = None\<rparr>,
        o_children = Some [0, 1]\<rparr>,
       \<lparr>o_data = \<lparr>id_n = Some (ascii ''a.js'' @ bullet @ ascii ''100'' @ bullet @ ascii ''40''),
                  size_n = 100, wastedBytes = 40,
                  originalId = Some (ascii ''a.js''), idHash = Some 364, dom = None\<rparr>,
        o_children = Some []\<rparr>,
       \<lparr>o_data = \<lparr>id_n = Some (ascii ''b.js'' @ bullet @ ascii ''200'' @ bullet @ ascii ''25''),
                  size_n = 200, wastedBytes = 50,
                  originalId = Some (ascii ''b.js''), idHash = Some 365, dom = None\<rparr>,
        o_children = Some []\<rparr>,
       \<lparr>o_data = \<lparr>id_n = Some (url0 @ bullet @ ascii ''300'' @ bullet @ ascii ''30''),
                  size_n = 300, wastedBytes = 90, originalId = Some url0,
                  idHash = None, dom = None\<rparr>,
        o_children = Some [3, 4]\<rparr>])"
proof -
  have n: "nat_to_string 200 = ascii ''200''" "nat_to_string 25 = ascii ''25''"
    by (simp_all add: digits.simps ascii_def nat_to_string_small)
  show ?thesis
    by (simp add: show_heap_def show_select_heap_def viewer0_def heap0_def lookup_def Let_def
        setTitle_fn_eq interpolate_def n nat_to_string_100 nat_to_string_40
        nat_to_string_300 nat_to_string_30 double_eval)
qed

theorem show_heap_frame_witness:
  "show_heap viewer0 heap0 (ascii ''javascript'') =
     (None, viewer0\<lparr>currentRootNode := Some 5\<rparr>, snd (snd (show_heap viewer0 heap0 (ascii ''javascript''))))
   \<and> take 2 (snd (snd (show_heap viewer0 heap0 (ascii ''javascript'')))) = heap0
   \<and> length (snd (snd (show_heap viewer0 heap0 (ascii ''javascript'')))) = 6"
proof -
  have l: "length heap0 = 2" by (simp add: heap0_def)
  from show_heap_frame [OF show_heap0, THEN conjunct2, THEN conjunct1]
  show ?thesis by (simp add: show_heap0 l)
qed

end
